theory Spec2Isabelle
  imports Main "HOL-Library.Sublist" "HOL-Library.Multiset" "HOL-Library.Char_ord"
    "HOL-Library.List_Lexorder" "HOL-Library.Product_Lexorder"
begin

section \<open>Python values\<close>

text \<open>
  A Python \<open>str\<close> is modelled as a \<open>string\<close>: a list of characters, each one code point
  below 256. Every delimiter, tag and path component of the three scripts is ASCII.
  Exceptions are values of \<open>py_error\<close>; a computation that may raise returns
  \<open>py_error + 'a\<close> with \<open>Inl\<close> for the exception.
\<close>

datatype py_error =
    ValueError string
  | KeyError string
  | IndexError string
  | ReError string
  | OSError string
  | Unmodelled string

abbreviation NL :: char where "NL \<equiv> CHR 0x0A"

definition and_then :: "'e + 'a \<Rightarrow> ('a \<Rightarrow> 'e + 'b) \<Rightarrow> 'e + 'b" where
  "and_then r f = (case r of Inl e \<Rightarrow> Inl e | Inr v \<Rightarrow> f v)"

subsection \<open>String methods\<close>

text \<open>\<open>str.startswith\<close>.\<close>

definition startswith :: "string \<Rightarrow> string \<Rightarrow> bool" where
  "startswith s p \<longleftrightarrow> take (length p) s = p"

text \<open>
  \<open>str.strip()\<close> removes the white space of both ends. For code points below 256 Python's
  white space is 9 to 13, 28 to 32, 133 and 160.
\<close>

definition isspace :: "char \<Rightarrow> bool" where
  "isspace c \<longleftrightarrow> (let n = (of_char c :: nat) in
     (9 \<le> n \<and> n \<le> 13) \<or> (28 \<le> n \<and> n \<le> 32) \<or> n = 133 \<or> n = 160)"

definition strip :: "string \<Rightarrow> string" where
  "strip s = rev (dropWhile isspace (rev (dropWhile isspace s)))"

text \<open>\<open>sep.join(xs)\<close>.\<close>

fun join :: "string \<Rightarrow> string list \<Rightarrow> string" where
  "join sep [] = []"
| "join sep [x] = x"
| "join sep (x # y # ys) = x @ sep @ join sep (y # ys)"

text \<open>
  \<open>s.split(sep)\<close>: the separator is searched from the left, occurrences do not overlap,
  the result always has at least one field, and an empty separator raises.
\<close>

function split_fields :: "string \<Rightarrow> string \<Rightarrow> string list" where
  "split_fields sep [] = [[]]"
| "split_fields sep (c # cs) =
     (if sep \<noteq> [] \<and> take (length sep) (c # cs) = sep
      then [] # split_fields sep (drop (length sep) (c # cs))
      else (case split_fields sep cs of
              [] \<Rightarrow> [[c]]
            | f # fs \<Rightarrow> (c # f) # fs))"
  by pat_completeness auto
termination
  by (relation "measure (\<lambda>(sep, s). length s)") (auto simp: neq_Nil_conv)

declare split_fields.simps [simp del]

definition split :: "string \<Rightarrow> string \<Rightarrow> py_error + string list" where
  "split s sep = (if sep = [] then Inl (ValueError ''empty separator'')
                  else Inr (split_fields sep s))"

text \<open>
  \<open>s.replace(old, new)\<close>: every occurrence of \<open>old\<close>, from the left, without overlap. An
  empty \<open>old\<close> matches before every character and at the end.
\<close>

function replace_from :: "string \<Rightarrow> string \<Rightarrow> string \<Rightarrow> string" where
  "replace_from old new [] = []"
| "replace_from old new (c # cs) =
     (if old \<noteq> [] \<and> take (length old) (c # cs) = old
      then new @ replace_from old new (drop (length old) (c # cs))
      else c # replace_from old new cs)"
  by pat_completeness auto
termination
  by (relation "measure (\<lambda>(old, new, s). length s)") (auto simp: neq_Nil_conv)

declare replace_from.simps [simp del]

definition replace :: "string \<Rightarrow> string \<Rightarrow> string \<Rightarrow> string" where
  "replace s old new =
     (if old = [] then new @ concat (map (\<lambda>c. c # new) s) else replace_from old new s)"

text \<open>\<open>os.path.basename\<close> (POSIX): what follows the last slash.\<close>

definition basename :: "string \<Rightarrow> string" where
  "basename p = rev (takeWhile (\<lambda>c. c \<noteq> CHR ''/'') (rev p))"

section \<open>The regular expressions of the scripts\<close>

text \<open>
  The patterns of the scripts use four constructs: a literal character, \<open>^\<close>, \<open>$\<close> and
  the capturing group \<open>(.*?)\<close>. \<open>match_here\<close> is the backtracking matcher of \<open>re\<close> on
  these: it tries the pattern at one position and returns the groups and the text after the
  match. The lazy group first tries to go on with nothing consumed and takes one more
  character only when that fails. \<open>prev\<close> is the character before the position (\<open>None\<close> at
  the start of the text); \<open>adv\<close> says that an empty match is to be refused.
\<close>

datatype flag = MULTILINE | DOTALL

datatype rx = Chr char | Bol | Eol | LazyAny

datatype repl = Txt string | Grp nat

definition lit :: "string \<Rightarrow> rx list" where
  "lit s = map Chr s"

definition dot_matches :: "flag list \<Rightarrow> char \<Rightarrow> bool" where
  "dot_matches fl c \<longleftrightarrow> DOTALL \<in> set fl \<or> c \<noteq> NL"

definition at_bol :: "flag list \<Rightarrow> char option \<Rightarrow> bool" where
  "at_bol fl prev = (case prev of None \<Rightarrow> True | Some c \<Rightarrow> MULTILINE \<in> set fl \<and> c = NL)"

definition at_eol :: "flag list \<Rightarrow> string \<Rightarrow> bool" where
  "at_eol fl s = (case s of [] \<Rightarrow> True | c # cs \<Rightarrow> c = NL \<and> (MULTILINE \<in> set fl \<or> cs = []))"

fun match_here :: "flag list \<Rightarrow> rx list \<Rightarrow> bool \<Rightarrow> char option \<Rightarrow> string
    \<Rightarrow> (string list \<times> string) option" where
  "match_here fl [] adv prev s = (if adv then None else Some ([], s))"
| "match_here fl (Chr c # p) adv prev [] = None"
| "match_here fl (Chr c # p) adv prev (x # xs) =
     (if x = c then match_here fl p False (Some x) xs else None)"
| "match_here fl (Bol # p) adv prev s =
     (if at_bol fl prev then match_here fl p adv prev s else None)"
| "match_here fl (Eol # p) adv prev s =
     (if at_eol fl s then match_here fl p adv prev s else None)"
| "match_here fl (LazyAny # p) adv prev [] =
     (case match_here fl p adv prev [] of
        Some (gs, r) \<Rightarrow> Some ([] # gs, r)
      | None \<Rightarrow> None)"
| "match_here fl (LazyAny # p) adv prev (x # xs) =
     (case match_here fl p adv prev (x # xs) of
        Some (gs, r) \<Rightarrow> Some ([] # gs, r)
      | None \<Rightarrow>
          if dot_matches fl x
          then (case match_here fl (LazyAny # p) False (Some x) xs of
                  Some (g # gs, r) \<Rightarrow> Some ((x # g) # gs, r)
                | _ \<Rightarrow> None)
          else None)"

text \<open>
  \<open>re.search\<close>: the leftmost position where the pattern matches. The result is the text
  before the match, the groups and the text after it.
\<close>

fun search_from :: "flag list \<Rightarrow> rx list \<Rightarrow> char option \<Rightarrow> string
    \<Rightarrow> (string list \<times> string) option" where
  "search_from fl p prev [] = match_here fl p False prev []"
| "search_from fl p prev (x # xs) =
     (case match_here fl p False prev (x # xs) of
        Some m \<Rightarrow> Some m
      | None \<Rightarrow> search_from fl p (Some x) xs)"

definition re_search :: "rx list \<Rightarrow> string \<Rightarrow> flag list \<Rightarrow> (string list \<times> string) option" where
  "re_search p s fl = search_from fl p None s"

text \<open>
  The replacement template: text and group references. \<open>Grp 0\<close> is the whole match.
  \<open>re\<close> compiles the template before it searches and raises when a reference names a
  group the pattern does not have.
\<close>

definition ngroups :: "rx list \<Rightarrow> nat" where
  "ngroups p = length (filter (\<lambda>r. r = LazyAny) p)"

fun bad_ref :: "nat \<Rightarrow> repl \<Rightarrow> bool" where
  "bad_ref n (Txt t) = False"
| "bad_ref n (Grp k) = (n < k)"

fun expand :: "repl list \<Rightarrow> string list \<Rightarrow> string" where
  "expand [] gs = []"
| "expand (Txt t # rs) gs = t @ expand rs gs"
| "expand (Grp k # rs) gs = (if k < length gs then gs ! k else []) @ expand rs gs"

lemma match_here_length:
  "match_here fl p adv prev s = Some (gs, r) \<Longrightarrow> length r \<le> length s"
proof (induction fl p adv prev s arbitrary: gs r rule: match_here.induct)
  case (7 fl p adv prev x xs)
  show ?case
  proof (cases "match_here fl p adv prev (x # xs)")
    case (Some m)
    with 7 show ?thesis by (cases m) auto
  next
    case None
    with 7 show ?thesis
      by (auto split: if_splits option.splits list.splits)
  qed
qed (auto split: if_splits option.splits)

lemma match_here_advance:
  "match_here fl p True prev s = Some (gs, r) \<Longrightarrow> length r < length s"
proof (induction fl p "True" prev s arbitrary: gs r rule: match_here.induct)
  case (3 fl c p prev x xs)
  then show ?case
    by (auto split: if_splits dest: match_here_length)
next
  case (7 fl p prev x xs)
  show ?case
  proof (cases "match_here fl p True prev (x # xs)")
    case (Some m)
    with 7 show ?thesis by (cases m) auto
  next
    case None
    with 7 show ?thesis
      by (auto split: if_splits option.splits list.splits dest!: match_here_length)
  qed
qed (auto split: if_splits option.splits)

text \<open>
  \<open>re.sub\<close>: the loop of the engine. At each position the pattern is tried; a match is
  replaced by the expanded template and the search goes on behind it. After an empty match
  the same position is tried once more for a match that is not empty; where nothing
  matches, the character is copied.
\<close>

function sub_loop :: "flag list \<Rightarrow> rx list \<Rightarrow> repl list \<Rightarrow> bool \<Rightarrow> char option \<Rightarrow> string
    \<Rightarrow> string" where
  "sub_loop fl p rp adv prev s =
     (case match_here fl p adv prev s of
        Some (gs, r) \<Rightarrow>
          (let m = take (length s - length r) s in
           expand rp (m # gs) @
             (if m = [] then sub_loop fl p rp True prev s
              else sub_loop fl p rp False (Some (last m)) r))
      | None \<Rightarrow>
          (case s of
             [] \<Rightarrow> []
           | x # xs \<Rightarrow> x # sub_loop fl p rp False (Some x) xs))"
  by pat_completeness auto
termination
proof (relation "measure (\<lambda>(fl, p, rp, adv, prev, s). 2 * length s + (if adv then 0 else 1))",
    goal_cases)
  case 1
  show ?case by simp
next
  case 2
  then show ?case by auto
next
  case (3 fl p rp adv prev s x2 gs r m)
  have "\<not> adv"
  proof
    assume adv
    with 3 have "length r < length s"
      using match_here_advance [of fl p prev s gs r] by simp
    with 3 show False by simp
  qed
  then show ?case by simp
next
  case (4 fl p rp adv prev s x2 gs r m)
  then have "length r \<le> length s"
    using match_here_length [of fl p adv prev s gs r] by simp
  moreover from 4 have "length s - length r \<noteq> 0"
    by auto
  ultimately show ?case by auto
qed

declare sub_loop.simps [simp del]

definition re_sub :: "rx list \<Rightarrow> repl list \<Rightarrow> string \<Rightarrow> flag list \<Rightarrow> py_error + string" where
  "re_sub p rp s fl =
     (if \<exists>r \<in> set rp. bad_ref (ngroups p) r then Inl (ReError ''invalid group reference'')
      else Inr (sub_loop fl p rp False None s))"

section \<open>\<open>str.format\<close>\<close>

text \<open>
  \<open>template.format(**kwargs)\<close> with keyword arguments whose values are strings, as the
  scripts call it. The template is read from the left: literal text, \<open>{{\<close> and \<open>}}\<close> for
  a brace, and replacement fields \<open>{name}\<close>, \<open>{name!c}\<close>, \<open>{name:spec}\<close>. Each field is
  rendered before the text behind it is read, so the first error from the left is the one
  raised. What a field with an attribute, an index, a \<open>repr\<close> conversion or a format
  specification renders to is outside the model (\<open>Unmodelled\<close>).
\<close>

text \<open>
  The name of a field ends at \<open>}\<close>, \<open>:\<close> or \<open>!\<close>; a \<open>{\<close> in it raises; after \<open>[\<close>
  everything up to \<open>]\<close> is skipped unread (\<open>inbr\<close>).
\<close>

fun scan_field_name :: "bool \<Rightarrow> string \<Rightarrow> py_error + (string \<times> char \<times> string)" where
  "scan_field_name inbr [] = Inl (ValueError ''expected '}' before end of string'')"
| "scan_field_name inbr (c # cs) =
     (if inbr then
        (case scan_field_name (c \<noteq> CHR '']'') cs of
           Inl e \<Rightarrow> Inl e
         | Inr (n, t, r) \<Rightarrow> Inr (c # n, t, r))
      else if c = CHR ''{'' then Inl (ValueError ''unexpected '{' in field name'')
      else if c = CHR ''}'' \<or> c = CHR '':'' \<or> c = CHR ''!'' then Inr ([], c, cs)
      else
        (case scan_field_name (c = CHR ''['') cs of
           Inl e \<Rightarrow> Inl e
         | Inr (n, t, r) \<Rightarrow> Inr (c # n, t, r)))"

text \<open>The format specification runs to the brace that closes the field; braces nest.\<close>

fun scan_spec :: "nat \<Rightarrow> string \<Rightarrow> py_error + (string \<times> string)" where
  "scan_spec depth [] = Inl (ValueError ''unmatched '{' in format spec'')"
| "scan_spec depth (c # cs) =
     (if c = CHR ''}'' \<and> depth - 1 = 0 then Inr ([], cs)
      else
        (case scan_spec (if c = CHR ''{'' then depth + 1
                         else if c = CHR ''}'' then depth - 1 else depth) cs of
           Inl e \<Rightarrow> Inl e
         | Inr (sp, r) \<Rightarrow> Inr (c # sp, r)))"

text \<open>
  \<open>parse_field\<close> reads one field, the opening brace already consumed: its name, its
  conversion character, its format specification and the text behind the field.
\<close>

definition parse_field :: "string \<Rightarrow> py_error + (string \<times> char option \<times> string \<times> string)" where
  "parse_field s =
     and_then (scan_field_name False s) (\<lambda>(name, c, r).
       if c = CHR ''}'' then Inr (name, None, [], r)
       else if c = CHR '':'' then
         and_then (scan_spec 1 r) (\<lambda>(spec, r'). Inr (name, None, spec, r'))
       else
         (case r of
            [] \<Rightarrow> Inl (ValueError ''end of string while looking for conversion specifier'')
          | conv # r1 \<Rightarrow>
              (case r1 of
                 [] \<Rightarrow> Inl (ValueError ''unmatched '{' in format spec'')
               | c2 # r2 \<Rightarrow>
                   if c2 = CHR ''}'' then Inr (name, Some conv, [], r2)
                   else if c2 \<noteq> CHR '':'' then
                     Inl (ValueError ''expected ':' after conversion specifier'')
                   else and_then (scan_spec 1 r2) (\<lambda>(spec, r'). Inr (name, Some conv, spec, r')))))"

definition isdigit :: "char \<Rightarrow> bool" where
  "isdigit c \<longleftrightarrow> (48::nat) \<le> of_char c \<and> of_char c \<le> (57::nat)"

text \<open>
  The object of a field: the part of the name before the first \<open>.\<close> or \<open>[\<close> is looked up
  among the keyword arguments. An empty name takes the next positional argument, of which
  there are none. Numbered fields are outside the model.
\<close>

definition get_field_object :: "(string \<rightharpoonup> string) \<Rightarrow> string \<Rightarrow> py_error + string" where
  "get_field_object kwargs name =
     (let first = takeWhile (\<lambda>c. c \<noteq> CHR ''.'' \<and> c \<noteq> CHR ''['') name;
          rest = dropWhile (\<lambda>c. c \<noteq> CHR ''.'' \<and> c \<noteq> CHR ''['') name
      in if first = []
         then Inl (IndexError ''Replacement index 0 out of range for positional args tuple'')
         else if \<forall>c \<in> set first. isdigit c
         then Inl (Unmodelled ''numbered field'')
         else
           (case kwargs first of
              None \<Rightarrow> Inl (KeyError first)
            | Some v \<Rightarrow>
                if rest = [] then Inr v else Inl (Unmodelled ''attribute or item of a field'')))"

definition convert_field :: "char option \<Rightarrow> string \<Rightarrow> py_error + string" where
  "convert_field conv v =
     (case conv of
        None \<Rightarrow> Inr v
      | Some c \<Rightarrow>
          if c = CHR ''s'' then Inr v
          else if c = CHR ''r'' \<or> c = CHR ''a'' then Inl (Unmodelled ''repr of a string'')
          else Inl (ValueError ''Unknown conversion specifier''))"

definition render_field :: "(string \<rightharpoonup> string) \<Rightarrow> string \<Rightarrow> char option \<Rightarrow> string
    \<Rightarrow> py_error + string" where
  "render_field kwargs name conv spec =
     and_then (get_field_object kwargs name) (\<lambda>v.
     and_then (convert_field conv v) (\<lambda>v.
       if spec = [] then Inr v else Inl (Unmodelled ''format specification'')))"

lemma scan_field_name_length:
  "scan_field_name inbr s = Inr (n, t, r) \<Longrightarrow> length r < length s"
  by (induction inbr s arbitrary: n rule: scan_field_name.induct)
    (fastforce split: if_splits sum.splits)+

lemma scan_spec_length:
  "scan_spec k s = Inr (sp, r) \<Longrightarrow> length r < length s"
  by (induction k s arbitrary: sp rule: scan_spec.induct)
    (fastforce split: if_splits sum.splits)+

lemma parse_field_length:
  assumes "parse_field s = Inr (name, conv, spec, r)"
  shows "length r < length s"
proof (cases "scan_field_name False s")
  case (Inl e)
  with assms show ?thesis by (simp add: parse_field_def and_then_def)
next
  case (Inr x)
  obtain n c r0 where x: "x = (n, c, r0)" by (cases x)
  from Inr x have r0: "length r0 < length s" by (auto dest: scan_field_name_length)
  from assms Inr x have "length r \<le> length r0"
    by (auto simp: parse_field_def and_then_def
        split: if_splits sum.splits list.splits dest!: scan_spec_length)
  with r0 show ?thesis by simp
qed

function str_format :: "string \<Rightarrow> (string \<rightharpoonup> string) \<Rightarrow> py_error + string" where
  "str_format [] kwargs = Inr []"
| "str_format (c # cs) kwargs =
     (if c = CHR ''{'' then
        (case cs of
           [] \<Rightarrow> Inl (ValueError ''Single '{' encountered in format string'')
         | d # ds \<Rightarrow>
             if d = CHR ''{'' then
               (case str_format ds kwargs of Inl e \<Rightarrow> Inl e | Inr t \<Rightarrow> Inr (CHR ''{'' # t))
             else
               (case parse_field cs of
                  Inl e \<Rightarrow> Inl e
                | Inr (name, conv, spec, rest) \<Rightarrow>
                    (case render_field kwargs name conv spec of
                       Inl e \<Rightarrow> Inl e
                     | Inr v \<Rightarrow>
                         (case str_format rest kwargs of
                            Inl e \<Rightarrow> Inl e
                          | Inr t \<Rightarrow> Inr (v @ t)))))
      else if c = CHR ''}'' then
        (case cs of
           [] \<Rightarrow> Inl (ValueError ''Single '}' encountered in format string'')
         | d # ds \<Rightarrow>
             if d = CHR ''}'' then
               (case str_format ds kwargs of Inl e \<Rightarrow> Inl e | Inr t \<Rightarrow> Inr (CHR ''}'' # t))
             else Inl (ValueError ''Single '}' encountered in format string''))
      else
        (case str_format cs kwargs of Inl e \<Rightarrow> Inl e | Inr t \<Rightarrow> Inr (c # t)))"
  by pat_completeness auto
termination
  by (relation "measure (\<lambda>(s, kwargs). length s)") (auto dest: parse_field_length)

section \<open>The document template\<close>

text \<open>
  \<open>create_html_template\<close> of \<open>convert_html_only.py\<close>: the text of the template, as the
  source has it.
\<close>

definition create_html_template :: string where
  \<open>create_html_template = ''<!DOCTYPE html>
<html lang="zh-CN">
<head>
    <meta charset="UTF-8">
    <meta name="viewport" content="width=device-width, initial-scale=1.0">
    <title>{title}</title>
    <style>
        @media print {
            @page {
                size: A4;
                margin: 2cm 1.5cm;
            }

            body {
                font-size: 11pt;
                line-height: 1.6;
            }

            h1 {
                page-break-before: always;
                font-size: 16pt;
            }

            h1:first-of-type {
                page-break-before: auto;
            }

            h2 {
                font-size: 14pt;
            }

            h3 {
                font-size: 12pt;
            }

            p {
                text-indent: 2em;
                orphans: 2;
                widows: 2;
            }
        }

        body {
            font-family: "Times New Roman", "SimSun", "Microsoft YaHei", "WenQuanYi Micro Hei", serif;
            font-size: 12pt;
            line-height: 1.8;
            color: #333;
            margin: 0;
            padding: 20px;
            max-width: 800px;
            margin: 0 auto;
            text-align: justify;
        }

        h1, h2, h3, h4, h5, h6 {
            font-family: "Times New Roman", "SimSun", "Microsoft YaHei", serif;
            color: #2c3e50;
            margin-top: 2em;
            margin-bottom: 1em;
            font-weight: bold;
            page-break-after: avoid;
        }

        h1 {
            font-size: 18pt;
            color: #c0392b;
            border-bottom: 3px solid #e74c3c;
            padding-bottom: 0.5em;
            text-align: center;
            margin-top: 1em;
        }

        h2 {
            font-size: 16pt;
            color: #34495e;
            border-left: 4px solid #3498db;
            padding-left: 1em;
            background-color: #f8f9fa;
            padding-top: 0.5em;
            padding-bottom: 0.5em;
        }

        h3 {
            font-size: 14pt;
            color: #7f8c8d;
            font-style: italic;
        }

        h4 {
            font-size: 13pt;
            color: #95a5a6;
        }

        p {
            margin-bottom: 1.2em;
            text-indent: 2em;
            orphans: 2;
            widows: 2;
        }

        blockquote {
            border-left: 4px solid #bdc3c7;
            padding-left: 1.5em;
            margin-left: 0;
            margin-right: 0;
            font-style: italic;
            color: #7f8c8d;
            background-color: #f8f9fa;
            padding-top: 0.5em;
            padding-bottom: 0.5em;
        }

        code {
            background-color: #f8f9fa;
            padding: 0.2em 0.4em;
            border-radius: 3px;
            font-family: "Courier New", monospace;
            font-size: 0.9em;
            border: 1px solid #e9ecef;
        }

        pre {
            background-color: #f8f9fa;
            padding: 1em;
            border-radius: 5px;
            overflow-x: auto;
            border: 1px solid #e9ecef;
            font-family: "Courier New", monospace;
            font-size: 0.9em;
            line-height: 1.4;
        }

        pre code {
            background: none;
            padding: 0;
            border: none;
        }

        table {
            border-collapse: collapse;
            width: 100%;
            margin: 1em 0;
            font-size: 11pt;
        }

        th, td {
            border: 1px solid #ddd;
            padding: 0.75em;
            text-align: left;
        }

        th {
            background-color: #f8f9fa;
            font-weight: bold;
            color: #2c3e50;
        }

        ul, ol {
            margin-bottom: 1em;
            padding-left: 2em;
        }

        li {
            margin-bottom: 0.5em;
        }

        .toc {
            page-break-after: always;
            background-color: #f8f9fa;
            padding: 2em;
            border-radius: 10px;
            margin-bottom: 2em;
        }

        .toc h2 {
            color: #c0392b;
            border: none;
            background: none;
            padding: 0;
            text-align: center;
            margin-bottom: 1.5em;
        }

        .toc ul {
            list-style: none;
            padding-left: 0;
        }

        .toc li {
            margin-bottom: 0.8em;
            padding-left: 1em;
        }

        .toc a {
            color: #3498db;
            text-decoration: none;
        }

        .toc a:hover {
            text-decoration: underline;
        }

        strong {
            color: #c0392b;
            font-weight: bold;
        }

        em {
            color: #8e44ad;
            font-style: italic;
        }

        .page-break {
            page-break-before: always;
        }
    </style>
</head>
<body>
    {content}
</body>
</html>''\<close>

text \<open>\<open>create_html_template\<close> of \<open>convert_to_pdf_html.py\<close>.\<close>

definition create_html_template_pdf :: string where
  \<open>create_html_template_pdf = ''<!DOCTYPE html>
<html lang="zh-CN">
<head>
    <meta charset="UTF-8">
    <meta name="viewport" content="width=device-width, initial-scale=1.0">
    <title>{title}</title>
    <style>
        @page {
            size: A4;
            margin: 2cm 1.5cm;
        }

        body {
            font-family: "Times New Roman", "SimSun", "Microsoft YaHei", "WenQuanYi Micro Hei", serif;
            font-size: 12pt;
            line-height: 1.8;
            color: #333;
            margin: 0;
            padding: 0;
            text-align: justify;
        }

        .container {
            max-width: 100%;
            margin: 0 auto;
            padding: 20px;
        }

        h1, h2, h3, h4, h5, h6 {
            font-family: "Times New Roman", "SimSun", "Microsoft YaHei", serif;
            color: #2c3e50;
            margin-top: 2em;
            margin-bottom: 1em;
            font-weight: bold;
            page-break-after: avoid;
        }

        h1 {
            font-size: 18pt;
            color: #c0392b;
            border-bottom: 3px solid #e74c3c;
            padding-bottom: 0.5em;
            text-align: center;
            margin-top: 1em;
        }

        h2 {
            font-size: 16pt;
            color: #34495e;
            border-left: 4px solid #3498db;
            padding-left: 1em;
            background-color: #f8f9fa;
            padding-top: 0.5em;
            padding-bottom: 0.5em;
        }

        h3 {
            font-size: 14pt;
            color: #7f8c8d;
            font-style: italic;
        }

        h4 {
            font-size: 13pt;
            color: #95a5a6;
        }

        p {
            margin-bottom: 1.2em;
            text-indent: 2em;
            orphans: 2;
            widows: 2;
        }

        blockquote {
            border-left: 4px solid #bdc3c7;
            padding-left: 1.5em;
            margin-left: 0;
            margin-right: 0;
            font-style: italic;
            color: #7f8c8d;
            background-color: #f8f9fa;
            padding-top: 0.5em;
            padding-bottom: 0.5em;
        }

        code {
            background-color: #f8f9fa;
            padding: 0.2em 0.4em;
            border-radius: 3px;
            font-family: "Courier New", monospace;
            font-size: 0.9em;
            border: 1px solid #e9ecef;
        }

        pre {
            background-color: #f8f9fa;
            padding: 1em;
            border-radius: 5px;
            overflow-x: auto;
            border: 1px solid #e9ecef;
            font-family: "Courier New", monospace;
            font-size: 0.9em;
            line-height: 1.4;
        }

        pre code {
            background: none;
            padding: 0;
            border: none;
        }

        table {
            border-collapse: collapse;
            width: 100%;
            margin: 1em 0;
            font-size: 11pt;
        }

        th, td {
            border: 1px solid #ddd;
            padding: 0.75em;
            text-align: left;
        }

        th {
            background-color: #f8f9fa;
            font-weight: bold;
            color: #2c3e50;
        }

        ul, ol {
            margin-bottom: 1em;
            padding-left: 2em;
        }

        li {
            margin-bottom: 0.5em;
        }

        .toc {
            page-break-after: always;
            background-color: #f8f9fa;
            padding: 2em;
            border-radius: 10px;
            margin-bottom: 2em;
        }

        .toc h2 {
            color: #c0392b;
            border: none;
            background: none;
            padding: 0;
            text-align: center;
            margin-bottom: 1.5em;
        }

        .toc ul {
            list-style: none;
            padding-left: 0;
        }

        .toc li {
            margin-bottom: 0.8em;
            padding-left: 1em;
        }

        .toc a {
            color: #3498db;
            text-decoration: none;
        }

        .toc a:hover {
            text-decoration: underline;
        }

        strong {
            color: #c0392b;
            font-weight: bold;
        }

        em {
            color: #8e44ad;
            font-style: italic;
        }

        .page-break {
            page-break-before: always;
        }

        @media print {
            body {
                font-size: 11pt;
                line-height: 1.6;
            }

            h1 {
                page-break-before: always;
                font-size: 16pt;
            }

            h1:first-of-type {
                page-break-before: auto;
            }

            h2 {
                font-size: 14pt;
            }

            h3 {
                font-size: 12pt;
            }

            p {
                text-indent: 2em;
                orphans: 2;
                widows: 2;
            }
        }
    </style>
</head>
<body>
    <div class="container">
        {content}
    </div>
</body>
</html>''\<close>

section \<open>The Markdown transformer\<close>

text \<open>
  The loop of \<open>simple_markdown_to_html\<close> over the paragraphs: each one is stripped, an
  empty one is dropped, and one that does not start with a block tag is wrapped in \<open><p>\<close>.
\<close>

fun html_paragraphs :: "string list \<Rightarrow> string list" where
  "html_paragraphs [] = []"
| "html_paragraphs (para # paragraphs) =
     (let para = strip para in
      if para \<noteq> [] then
        (if \<not> (startswith para ''<h'' \<or> startswith para ''<block'' \<or> startswith para ''<pre''
               \<or> startswith para ''<ul'' \<or> startswith para ''<ol'')
         then ''<p>'' @ para @ ''</p>''
         else para) # html_paragraphs paragraphs
      else html_paragraphs paragraphs)"

text \<open>The four header rules, in the order of the source.\<close>

definition headers :: "string \<Rightarrow> py_error + string" where
  "headers html =
     and_then (re_sub (Bol # lit ''# '' @ [LazyAny, Eol])
                 [Txt ''<h1>'', Grp 1, Txt ''</h1>''] html [MULTILINE]) (\<lambda>html.
     and_then (re_sub (Bol # lit ''## '' @ [LazyAny, Eol])
                 [Txt ''<h2>'', Grp 1, Txt ''</h2>''] html [MULTILINE]) (\<lambda>html.
     and_then (re_sub (Bol # lit ''### '' @ [LazyAny, Eol])
                 [Txt ''<h3>'', Grp 1, Txt ''</h3>''] html [MULTILINE]) (\<lambda>html.
     re_sub (Bol # lit ''#### '' @ [LazyAny, Eol])
                 [Txt ''<h4>'', Grp 1, Txt ''</h4>''] html [MULTILINE])))"

text \<open>Bold and italic, code blocks and inline code, block quotes.\<close>

definition inline_rules :: "string \<Rightarrow> py_error + string" where
  "inline_rules html =
     and_then (re_sub (lit ''**'' @ [LazyAny] @ lit ''**'')
                 [Txt ''<strong>'', Grp 1, Txt ''</strong>''] html []) (\<lambda>html.
     and_then (re_sub (lit ''*'' @ [LazyAny] @ lit ''*'')
                 [Txt ''<em>'', Grp 1, Txt ''</em>''] html []) (\<lambda>html.
     and_then (re_sub (lit ''```'' @ [LazyAny] @ lit ''```'')
                 [Txt ''<pre><code>'', Grp 1, Txt ''</code></pre>''] html [DOTALL]) (\<lambda>html.
     and_then (re_sub (lit ''`'' @ [LazyAny] @ lit ''`'')
                 [Txt ''<code>'', Grp 1, Txt ''</code>''] html []) (\<lambda>html.
     re_sub (Bol # lit ''> '' @ [LazyAny, Eol])
                 [Txt ''<blockquote>'', Grp 1, Txt ''</blockquote>''] html [MULTILINE]))))"

definition simple_markdown_to_html :: "string \<Rightarrow> py_error + string" where
  "simple_markdown_to_html md_content =
     and_then (headers md_content) (\<lambda>html.
     and_then (inline_rules html) (\<lambda>html.
     and_then (split html [NL, NL]) (\<lambda>paragraphs.
     Inr (join [NL] (html_paragraphs paragraphs)))))"

subsection \<open>The line rules on one line\<close>

text \<open>
  The header rule as the specification words it: a line that begins with one to four
  \<open>#\<close> and a space becomes the heading element of that level around the rest of the
  line; every other line stays as it is.
\<close>

definition heading_line :: "string \<Rightarrow> string" where
  "heading_line l =
     (if prefix ''# '' l then ''<h1>'' @ drop 2 l @ ''</h1>''
      else if prefix ''## '' l then ''<h2>'' @ drop 3 l @ ''</h2>''
      else if prefix ''### '' l then ''<h3>'' @ drop 4 l @ ''</h3>''
      else if prefix ''#### '' l then ''<h4>'' @ drop 5 l @ ''</h4>''
      else l)"

text \<open>One rule of the shape \<open>^h(.*?)$\<close> with the replacement \<open>op\1cl\<close>, on one line.\<close>

definition tag_line :: "string \<Rightarrow> string \<Rightarrow> string \<Rightarrow> string \<Rightarrow> string" where
  "tag_line h op cl l = (if prefix h l then op @ drop (length h) l @ cl else l)"

section \<open>Files\<close>

text \<open>
  The file system as the scripts see it. \<open>listing\<close> holds the paths that exist, in the
  order in which the operating system lists them; \<open>files\<close> gives the text of those that
  can be read and decoded. Directories, permissions and failing writes are not modelled:
  \<open>os.makedirs\<close> does nothing here and a write always succeeds.
\<close>

record env =
  listing :: "string list"
  files :: "string \<rightharpoonup> string"

definition read_file :: "env \<Rightarrow> string \<Rightarrow> py_error + string" where
  "read_file e path = (case files e path of None \<Rightarrow> Inl (OSError path) | Some text \<Rightarrow> Inr text)"

definition write_file :: "env \<Rightarrow> string \<Rightarrow> string \<Rightarrow> env" where
  "write_file e path text =
     e\<lparr>listing := (if path \<in> set (listing e) then listing e else listing e @ [path]),
       files := (files e)(path \<mapsto> text)\<rparr>"

text \<open>
  \<open>glob.glob(dir + '*' + ext)\<close>: the existing paths made of \<open>dir\<close>, a name without a
  slash and \<open>ext\<close>, the name with its extension not starting with a dot, in the order
  of the listing.
\<close>

definition glob_match :: "string \<Rightarrow> string \<Rightarrow> string \<Rightarrow> bool" where
  "glob_match dir ext path \<longleftrightarrow>
     take (length dir) path = dir \<and>
     (let b = drop (length dir) path in
        CHR ''/'' \<notin> set b \<and> length ext \<le> length b \<and> drop (length b - length ext) b = ext
        \<and> take 1 b \<noteq> ''.'')"

definition glob :: "env \<Rightarrow> string \<Rightarrow> string \<Rightarrow> string list" where
  "glob e dir ext = filter (glob_match dir ext) (listing e)"

text \<open>The decimal text of a number, as an f-string renders it.\<close>

fun str_nat :: "nat \<Rightarrow> string" where
  "str_nat n = (if n < 10 then [''0123456789'' ! n]
                else str_nat (n div 10) @ [''0123456789'' ! (n mod 10)])"

declare str_nat.simps [simp del]

section \<open>The file collector\<close>

text \<open>
  \<open>int(s)\<close> for a string of code points below 256: white space at both ends (9 to 13, 32,
  133, 160), a sign, and decimal digits with single underscores between them. The limit on
  the number of digits of recent interpreters is not modelled.
\<close>

definition int_space :: "char \<Rightarrow> bool" where
  "int_space c \<longleftrightarrow>
     (let n = (of_char c :: nat) in (9 \<le> n \<and> n \<le> 13) \<or> n = 32 \<or> n = 133 \<or> n = 160)"

definition digit_value :: "char \<Rightarrow> nat" where
  "digit_value c = of_char c - 48"

fun parse_digits :: "nat \<Rightarrow> string \<Rightarrow> nat option" where
  "parse_digits acc [] = Some acc"
| "parse_digits acc [c] = (if isdigit c then Some (10 * acc + digit_value c) else None)"
| "parse_digits acc (c # d # ds) =
     (if isdigit c then parse_digits (10 * acc + digit_value c) (d # ds)
      else if c = CHR ''_'' \<and> isdigit d then parse_digits (10 * acc + digit_value d) ds
      else None)"

definition py_int :: "string \<Rightarrow> py_error + int" where
  "py_int s =
     (let b = rev (dropWhile int_space (rev (dropWhile int_space s)));
          neg = (take 1 b = ''-'');
          r = (if take 1 b = ''-'' \<or> take 1 b = ''+'' then drop 1 b else b)
      in case r of
           [] \<Rightarrow> Inl (ValueError s)
         | d # ds \<Rightarrow>
             if isdigit d then
               (case parse_digits (digit_value d) ds of
                  None \<Rightarrow> Inl (ValueError s)
                | Some n \<Rightarrow> Inr (if neg then - int n else int n))
             else Inl (ValueError s))"

text \<open>
  The sort key \<open>lambda x: (int(x.split('/part')[1].split('/')[0]), x)\<close>. The index 1
  raises when the path has no \<open>/part\<close>.
\<close>

definition part_key :: "string \<Rightarrow> py_error + (int \<times> string)" where
  "part_key x =
     and_then (split x ''/part'') (\<lambda>parts.
       case parts of
         p0 # p1 # ps \<Rightarrow>
           and_then (split p1 ''/'') (\<lambda>q.
             case q of
               [] \<Rightarrow> Inl (IndexError ''list index out of range'')
             | q0 # qs \<Rightarrow> and_then (py_int q0) (\<lambda>n. Inr (n, x)))
       | _ \<Rightarrow> Inl (IndexError ''list index out of range''))"

text \<open>\<open>list.sort(key=...)\<close>: the keys are computed first, then the list is sorted stably.\<close>

fun all_keys :: "string list \<Rightarrow> py_error + (int \<times> string) list" where
  "all_keys [] = Inr []"
| "all_keys (x # xs) =
     and_then (part_key x) (\<lambda>k. and_then (all_keys xs) (\<lambda>ks. Inr (k # ks)))"

definition sort_files :: "string list \<Rightarrow> py_error + string list" where
  "sort_files xs = and_then (all_keys xs) (\<lambda>ks. Inr (map snd (sort_key fst (zip ks xs))))"

text \<open>The loop \<open>for i in range(7)\<close> over the glob patterns, then the sort.\<close>

definition discover :: "env \<Rightarrow> string \<Rightarrow> string \<Rightarrow> string list" where
  "discover e root ext =
     concat (map (\<lambda>i. glob e (root @ ''/part'' @ str_nat i @ ''/'') ext) [0..<7])"

definition collect_files :: "env \<Rightarrow> string \<Rightarrow> string \<Rightarrow> py_error + string list" where
  "collect_files e root ext = sort_files (discover e root ext)"

section \<open>The single-file converter\<close>

text \<open>
  \<open>convert_md_file_to_html\<close>: whatever is raised inside the \<open>try\<close> is caught and the
  function returns \<open>None\<close>; the file is written last, so a failure leaves the files as
  they were.
\<close>

definition convert_md_file_to_html :: "env \<Rightarrow> string \<Rightarrow> env \<times> string option" where
  "convert_md_file_to_html e md_file =
     (case
        and_then (read_file e md_file) (\<lambda>md_content.
        and_then (simple_markdown_to_html md_content) (\<lambda>html_content.
        let title = replace (replace (basename md_file) ''.md'' []) ''_'' '' '' in
        and_then (str_format create_html_template
                    [''content'' \<mapsto> html_content, ''title'' \<mapsto> title]) (\<lambda>full_html.
        let html_file = replace (replace md_file ''.md'' ''.html'') ''src/'' ''html_output/'' in
        Inr (write_file e html_file full_html, html_file))))
      of
        Inl err \<Rightarrow> (e, None)
      | Inr (e', html_file) \<Rightarrow> (e', Some html_file))"

section \<open>The combiner\<close>

text \<open>
  The title page, the heading of the table of contents and the title of the combined
  document contain characters beyond code point 255; they are parameters here.
\<close>

record texts =
  title_page :: string
  toc_open :: string
  combined_title :: string

definition toc_close :: string where
  "toc_close = [NL] @ ''        </ul>'' @ [NL] @ ''    </div>'' @ [NL] @ ''    ''"

definition page_break :: string where
  \<open>page_break = ''<div style="page-break-after: always;"></div>''\<close>

text \<open>One entry of the table of contents.\<close>

definition toc_entry :: "string \<Rightarrow> string" where
  \<open>toc_entry html_file =
     (let base_name = replace (basename html_file) ''.html'' [];
          readable_name = replace base_name ''_'' '' ''
      in ''<li><a href="#'' @ base_name @ ''">'' @ readable_name @ ''</a></li>'')\<close>

text \<open>
  What the second loop appends for one file: nothing when the file cannot be read or has
  no body, else the container, the body, the closing tag and a page break.
\<close>

definition file_section :: "env \<Rightarrow> string \<Rightarrow> string list" where
  \<open>file_section e html_file =
     (case
        and_then (read_file e html_file) (\<lambda>content.
          case re_search (lit ''<body>'' @ [LazyAny] @ lit ''</body>'') content [DOTALL] of
            None \<Rightarrow> Inr []
          | Some (gs, rest) \<Rightarrow>
              and_then (re_sub (lit ''<div class="container">'' @ [LazyAny] @ lit ''</div>'')
                          [Grp 1] (case gs of [] \<Rightarrow> [] | g # _ \<Rightarrow> g) [DOTALL]) (\<lambda>body_content.
              let base_name = replace (basename html_file) ''.html'' [] in
              Inr [''<div id="'' @ base_name @ ''">'', body_content, ''</div>'', page_break]))
      of
        Inl err \<Rightarrow> []
      | Inr items \<Rightarrow> items)\<close>

definition combined_content :: "texts \<Rightarrow> env \<Rightarrow> string list \<Rightarrow> string list" where
  "combined_content tx e all_files =
     [title_page tx, toc_open tx @ concat (map toc_entry all_files) @ toc_close]
       @ concat (map (file_section e) all_files)"


section \<open>The batch\<close>





section \<open>The template cannot be filled\<close>

text \<open>
  The style rules of both templates are written with single braces, which \<open>str.format\<close>
  reads as replacement fields. The first one is met right after the title.
\<close>

lemma template_prefix:
  \<open>take 226 create_html_template = ''<!DOCTYPE html>
<html lang="zh-CN">
<head>
    <meta charset="UTF-8">
    <meta name="viewport" content="width=device-width, initial-scale=1.0">
    <title>{title}</title>
    <style>
        @media print {
            @page {''\<close>
  by (simp add: create_html_template_def)

lemma template_pdf_prefix:
  \<open>take 262 create_html_template_pdf = ''<!DOCTYPE html>
<html lang="zh-CN">
<head>
    <meta charset="UTF-8">
    <meta name="viewport" content="width=device-width, initial-scale=1.0">
    <title>{title}</title>
    <style>
        @page {
            size: A4;
            margin: 2cm 1.5cm;
        }''\<close>
  by (simp add: create_html_template_pdf_def)

lemma format_prefix:
  \<open>str_format (''<!DOCTYPE html>
<html lang="zh-CN">
<head>
    <meta charset="UTF-8">
    <meta name="viewport" content="width=device-width, initial-scale=1.0">
    <title>{title}</title>
    <style>
        @media print {
            @page {'' @ r) [''content'' \<mapsto> c, ''title'' \<mapsto> t]
     = Inl (ValueError ''unexpected '{' in field name'')\<close>
  by (simp add: parse_field_def and_then_def render_field_def get_field_object_def
      convert_field_def isdigit_def)

lemma format_pdf_prefix:
  \<open>str_format (''<!DOCTYPE html>
<html lang="zh-CN">
<head>
    <meta charset="UTF-8">
    <meta name="viewport" content="width=device-width, initial-scale=1.0">
    <title>{title}</title>
    <style>
        @page {
            size: A4;
            margin: 2cm 1.5cm;
        }'' @ r) [''title'' \<mapsto> t, ''content'' \<mapsto> c]
     = Inl (KeyError (NL # ''            size''))\<close>
  by (simp add: parse_field_def and_then_def render_field_def get_field_object_def
      convert_field_def isdigit_def)

lemma format_html_only:
  "str_format create_html_template [''content'' \<mapsto> c, ''title'' \<mapsto> t]
     = Inl (ValueError ''unexpected '{' in field name'')"
proof -
  have "create_html_template = take 226 create_html_template @ drop 226 create_html_template"
    by simp
  then show ?thesis
    using format_prefix [of "drop 226 create_html_template" c t]
    by (simp only: template_prefix)
qed

lemma format_pdf_html:
  "str_format create_html_template_pdf [''title'' \<mapsto> t, ''content'' \<mapsto> c]
     = Inl (KeyError (NL # ''            size''))"
proof -
  have "create_html_template_pdf
      = take 262 create_html_template_pdf @ drop 262 create_html_template_pdf"
    by simp
  then show ?thesis
    using format_pdf_prefix [of "drop 262 create_html_template_pdf" t c]
    by (simp only: template_pdf_prefix)
qed

text \<open>
  C1. The document wrapper is the call \<open>template.format(content=..., title=...)\<close>. For
  every fragment and every title it raises instead of returning a document: \<open>ValueError\<close>
  with the template of \<open>convert_html_only.py\<close>, \<open>KeyError\<close> with the template of
  \<open>convert_to_pdf_html.py\<close>.
\<close>

theorem document_wrapper_raises:
  "str_format create_html_template [''content'' \<mapsto> fragment, ''title'' \<mapsto> title]
     = Inl (ValueError ''unexpected '{' in field name'')
   \<and> str_format create_html_template_pdf [''title'' \<mapsto> title, ''content'' \<mapsto> fragment]
     = Inl (KeyError (NL # ''            size''))"
  by (simp only: format_html_only format_pdf_html)

section \<open>The single-file converter never succeeds\<close>

lemma convert_fails: "convert_md_file_to_html e md_file = (e, None)"
proof (cases "read_file e md_file")
  case (Inl err)
  then show ?thesis by (simp add: convert_md_file_to_html_def and_then_def)
next
  case (Inr md_content)
  then show ?thesis
    by (cases "simple_markdown_to_html md_content")
      (simp_all add: convert_md_file_to_html_def and_then_def format_html_only Let_def)
qed



text \<open>
  C5. A source file with the text \<open># A\<close>. The transformer turns the text into a heading,
  but the template cannot be filled with it: the conversion returns \<open>None\<close> and leaves the
  files as they were, so that no output file exists after the first run nor after a second
  one.
\<close>

theorem conversion_writes_no_output:
  "simple_markdown_to_html ''# A'' = Inr ''<h1>A</h1>''
   \<and> str_format create_html_template [''content'' \<mapsto> ''<h1>A</h1>'', ''title'' \<mapsto> ''a'']
       = Inl (ValueError ''unexpected '{' in field name'')
   \<and> convert_md_file_to_html
         \<lparr>listing = [''src/part0/a.md''], files = [''src/part0/a.md'' \<mapsto> ''# A'']\<rparr>
         ''src/part0/a.md''
       = (\<lparr>listing = [''src/part0/a.md''], files = [''src/part0/a.md'' \<mapsto> ''# A'']\<rparr>, None)
   \<and> files (fst (convert_md_file_to_html
         (fst (convert_md_file_to_html
            \<lparr>listing = [''src/part0/a.md''], files = [''src/part0/a.md'' \<mapsto> ''# A'']\<rparr>
            ''src/part0/a.md''))
         ''src/part0/a.md'')) ''html_output/part0/a.html'' = None"
proof -
  have "simple_markdown_to_html ''# A'' = Inr ''<h1>A</h1>''" by code_simp
  then show ?thesis by (simp add: format_html_only convert_fails)
qed

text \<open>
  C2. A fenced block with a blank line inside: the paragraph step splits the text at the
  blank line, so the code element that comes out has lost the blank line and holds a
  \<open><p>\<close> tag that the input does not have.
\<close>

theorem fenced_block_blank_line_lost:
  "simple_markdown_to_html (''```'' @ [NL] @ ''a'' @ [NL, NL] @ ''b'' @ [NL] @ ''```'')
     = Inr (''<pre><code>'' @ [NL] @ ''a'' @ [NL] @ ''<p>b'' @ [NL] @ ''</code></pre></p>'')"
  by code_simp

text \<open>
  C7. The transformer returns a string for every input: none of its nine substitutions
  refers to a group its pattern lacks, the separator of the split is not empty, and the
  loops end.
\<close>

theorem simple_markdown_to_html_total:
  "\<exists>html. simple_markdown_to_html md_content = Inr html"
  by (simp add: simple_markdown_to_html_def headers_def inline_rules_def re_sub_def
      and_then_def split_def ngroups_def lit_def)

section \<open>The sort key on the paths the collector finds\<close>

lemma split_fields_not_Nil: "split_fields sep s \<noteq> []"
  by (induction sep s rule: split_fields.induct)
    (auto simp: split_fields.simps split: list.splits)

lemma split_fields_hd_single:
  "hd (split_fields [c] s) = takeWhile (\<lambda>x. x \<noteq> c) s"
proof (induction s)
  case Nil
  show ?case by (simp add: split_fields.simps)
next
  case (Cons x xs)
  then show ?case
    using split_fields_not_Nil [of "[c]" xs]
    by (cases "split_fields [c] xs") (auto simp: split_fields.simps)
qed

lemma split_fields_hd_cases:
  "hd (split_fields sep (c # cs)) = [] \<or> (\<exists>t. hd (split_fields sep (c # cs)) = c # t)"
  using split_fields_not_Nil [of sep cs]
  by (cases "split_fields sep cs") (auto simp: split_fields.simps)

lemma first_field_after_part:
  assumes "d \<noteq> CHR ''/''"
  shows "takeWhile (\<lambda>x. x \<noteq> CHR ''/'') (hd (split_fields ''/part'' (d # CHR ''/'' # rest))) = [d]"
proof -
  have "hd (split_fields ''/part'' (d # CHR ''/'' # rest))
      = d # hd (split_fields ''/part'' (CHR ''/'' # rest))"
    using assms split_fields_not_Nil [of "''/part''" "CHR ''/'' # rest"]
    by (cases "split_fields ''/part'' (CHR ''/'' # rest)")
      (auto simp: split_fields.simps(2) [of _ d])
  then show ?thesis
    using assms split_fields_hd_cases [of "''/part''" "CHR ''/''" rest] by auto
qed

lemma py_int_digit:
  assumes "isdigit d"
  shows "py_int [d] = Inr (int (digit_value d))"
proof -
  from assms have "\<not> int_space d" "d \<noteq> CHR ''-''" "d \<noteq> CHR ''+''"
    by (auto simp: isdigit_def int_space_def Let_def)
  with assms show ?thesis by (simp add: py_int_def)
qed

lemma part_key_after_part:
  assumes "isdigit d"
  shows "and_then (Inr (p0 # split_fields ''/part'' (d # CHR ''/'' # rest)))
           (\<lambda>parts. case parts of
               p0 # p1 # ps \<Rightarrow>
                 and_then (split p1 ''/'') (\<lambda>q.
                   case q of
                     [] \<Rightarrow> Inl (IndexError ''list index out of range'')
                   | q0 # qs \<Rightarrow> and_then (py_int q0) (\<lambda>n. Inr (n, x)))
             | _ \<Rightarrow> Inl (IndexError ''list index out of range''))
         = Inr (int (digit_value d), x)"
proof -
  from assms have d: "d \<noteq> CHR ''/''" by (auto simp: isdigit_def)
  obtain p1 ps where ps: "split_fields ''/part'' (d # CHR ''/'' # rest) = p1 # ps"
    using split_fields_not_Nil [of "''/part''" "d # CHR ''/'' # rest"]
    by (cases "split_fields ''/part'' (d # CHR ''/'' # rest)") auto
  obtain q0 qs where qs: "split_fields ''/'' p1 = q0 # qs"
    using split_fields_not_Nil [of "''/''" p1] by (cases "split_fields ''/'' p1") auto
  have "q0 = hd (split_fields ''/'' p1)" using qs by simp
  also have "\<dots> = takeWhile (\<lambda>x. x \<noteq> CHR ''/'') p1" by (rule split_fields_hd_single)
  also have "\<dots> = [d]" using first_field_after_part [OF d, of rest] ps by simp
  finally have "q0 = [d]" .
  with ps qs assms show ?thesis
    by (simp add: and_then_def split_def py_int_digit)
qed

lemma str_nat_digit: "n < 10 \<Longrightarrow> str_nat n = [''0123456789'' ! n]"
  by (subst str_nat.simps) simp

lemma digit_of_str_nat:
  assumes "n < 10"
  shows "\<exists>d. str_nat n = [d] \<and> isdigit d \<and> digit_value d = n"
proof -
  from assms have "n \<in> {0, 1, 2, 3, 4, 5, 6, 7, 8, 9}" by auto
  then have "isdigit (''0123456789'' ! n) \<and> digit_value (''0123456789'' ! n) = n"
    by (auto simp: isdigit_def digit_value_def)
  with assms show ?thesis by (simp add: str_nat_digit)
qed

lemma split_src: "split_fields ''/part'' (''src/part'' @ t) = ''src'' # split_fields ''/part'' t"
  by (simp add: split_fields.simps)

lemma split_html_output:
  "split_fields ''/part'' (''html_output/part'' @ t) = ''html_output'' # split_fields ''/part'' t"
  by (simp add: split_fields.simps)

lemma part_key_src:
  assumes "n < 10"
  shows "part_key (''src/part'' @ str_nat n @ ''/'' @ rest)
           = Inr (int n, ''src/part'' @ str_nat n @ ''/'' @ rest)"
proof -
  from assms obtain d where d: "str_nat n = [d]" "isdigit d" "digit_value d = n"
    using digit_of_str_nat by blast
  have "split (''src/part'' @ str_nat n @ ''/'' @ rest) ''/part''
      = Inr (''src'' # split_fields ''/part'' (d # CHR ''/'' # rest))"
    using split_src [of "d # CHR ''/'' # rest"] by (simp add: split_def d)
  then show ?thesis
    unfolding part_key_def using part_key_after_part [OF d(2)] d(3) by simp
qed

lemma part_key_html_output:
  assumes "n < 10"
  shows "part_key (''html_output/part'' @ str_nat n @ ''/'' @ rest)
           = Inr (int n, ''html_output/part'' @ str_nat n @ ''/'' @ rest)"
proof -
  from assms obtain d where d: "str_nat n = [d]" "isdigit d" "digit_value d = n"
    using digit_of_str_nat by blast
  have "split (''html_output/part'' @ str_nat n @ ''/'' @ rest) ''/part''
      = Inr (''html_output'' # split_fields ''/part'' (d # CHR ''/'' # rest))"
    using split_html_output [of "d # CHR ''/'' # rest"] by (simp add: split_def d)
  then show ?thesis
    unfolding part_key_def using part_key_after_part [OF d(2)] d(3) by simp
qed

text \<open>
  C9. For a path \<open>src/partN/<basename>.md\<close> or \<open>html_output/partN/<basename>.html\<close>
  with one decimal digit \<open>N\<close> and no slash in the base name, the sort key is computed
  without an error and its first component is \<open>N\<close>.
\<close>

theorem part_key_of_collected_path:
  assumes "n < 10" and "CHR ''/'' \<notin> set base"
  shows "part_key (''src/part'' @ str_nat n @ ''/'' @ base @ ''.md'')
           = Inr (int n, ''src/part'' @ str_nat n @ ''/'' @ base @ ''.md'')
       \<and> part_key (''html_output/part'' @ str_nat n @ ''/'' @ base @ ''.html'')
           = Inr (int n, ''html_output/part'' @ str_nat n @ ''/'' @ base @ ''.html'')"
  using part_key_src [OF assms(1)] part_key_html_output [OF assms(1)] by simp

theorem part_key_of_collected_path_witness:
  "(3::nat) < 10 \<and> CHR ''/'' \<notin> set ''chapter_1''
   \<and> part_key ''src/part3/chapter_1.md'' = Inr (3, ''src/part3/chapter_1.md'')
   \<and> part_key ''html_output/part3/chapter_1.html'' = Inr (3, ''html_output/part3/chapter_1.html'')"
  using part_key_of_collected_path [of 3 "''chapter_1''"]
  by (simp add: str_nat_digit)

section \<open>The collector\<close>

lemma glob_shape: "x \<in> set (glob e dir ext) \<Longrightarrow> \<exists>b. x = dir @ b"
proof -
  assume "x \<in> set (glob e dir ext)"
  then have "take (length dir) x = dir" by (simp add: glob_def glob_match_def)
  then have "x = dir @ drop (length dir) x" by (metis append_take_drop_id)
  then show ?thesis ..
qed

lemma discover_shape:
  assumes "x \<in> set (discover e root ext)"
  shows "\<exists>i b. i < 7 \<and> x = root @ ''/part'' @ str_nat i @ ''/'' @ b"
proof -
  from assms obtain i where i: "i < 7" "x \<in> set (glob e (root @ ''/part'' @ str_nat i @ ''/'') ext)"
    by (auto simp: discover_def)
  from glob_shape [OF i(2)] obtain b where "x = (root @ ''/part'' @ str_nat i @ ''/'') @ b" ..
  with i(1) show ?thesis by auto
qed

lemma part_key_discovered:
  assumes "root = ''src'' \<or> root = ''html_output''" and "x \<in> set (discover e root ext)"
  shows "\<exists>n. part_key x = Inr (n, x)"
proof -
  from discover_shape [OF assms(2)] obtain i b
    where i: "i < 7" and x: "x = root @ ''/part'' @ str_nat i @ ''/'' @ b" by blast
  from i have "i < 10" by simp
  with assms(1) x show ?thesis
    using part_key_src [of i b] part_key_html_output [of i b] by auto
qed

lemma all_keys_ok:
  "\<forall>x \<in> set xs. \<exists>n. part_key x = Inr (n, x)
     \<Longrightarrow> all_keys xs = Inr (map (\<lambda>x. projr (part_key x)) xs)"
  by (induction xs) (auto simp: and_then_def)

lemma insort_key_pairs:
  "insort_key fst (f a, a) (map (\<lambda>x. (f x, x)) ys) = map (\<lambda>x. (f x, x)) (insort_key f a ys)"
  by (induction ys) auto

lemma sort_key_pairs:
  "sort_key fst (map (\<lambda>x. (f x, x)) xs) = map (\<lambda>x. (f x, x)) (sort_key f xs)"
  by (induction xs) (auto simp: insort_key_pairs)

lemma sort_files_ok:
  assumes "\<forall>x \<in> set xs. \<exists>n. part_key x = Inr (n, x)"
  shows "sort_files xs = Inr (sort_key (\<lambda>x. projr (part_key x)) xs)"
proof -
  have "zip (map (\<lambda>x. projr (part_key x)) xs) xs = map (\<lambda>x. (projr (part_key x), x)) xs"
    by (induction xs) auto
  then show ?thesis
    by (simp add: sort_files_def all_keys_ok [OF assms] and_then_def sort_key_pairs comp_def)
qed

lemma sort_key_same_mset:
  fixes f :: "'a \<Rightarrow> 'b::linorder"
  assumes "mset xs = mset xs'" and "inj_on f (set xs)"
  shows "sort_key f xs = sort_key f xs'"
proof -
  have s: "set xs' = set xs" using assms(1) by (metis set_mset_mset)
  have "map f (sort_key f xs) = sort (map f xs)"
    by (rule properties_for_sort [symmetric]) simp_all
  moreover have "map f (sort_key f xs') = sort (map f xs')"
    by (rule properties_for_sort [symmetric]) simp_all
  moreover have "sort (map f xs) = sort (map f xs')"
    by (rule properties_for_sort) (simp_all add: assms(1))
  ultimately have "map f (sort_key f xs) = map f (sort_key f xs')" by simp
  moreover have "inj_on f (set (sort_key f xs) \<union> set (sort_key f xs'))"
    using assms(2) s by simp
  ultimately show ?thesis by (simp add: inj_on_map_eq_map)
qed

lemma discover_mset:
  assumes "mset (listing e') = mset (listing e)"
  shows "mset (discover e' root ext) = mset (discover e root ext)"
proof -
  have "mset (glob e' dir ext) = mset (glob e dir ext)" for dir
    using assms by (simp add: glob_def)
  then show ?thesis
    by (simp add: discover_def mset_concat comp_def)
qed

text \<open>
  C4. The collector, for the sources and for the produced pages: whatever the order in
  which the operating system lists the files, the result is the same list, it holds the
  discovered paths, and of any two of its paths the earlier one has the smaller partition
  number or, with the same number, is the smaller string.
\<close>

theorem collector_sorts_by_partition:
  assumes "mset (listing e') = mset (listing e)"
    and "root = ''src'' \<or> root = ''html_output''"
  shows "\<exists>ys. collect_files e root ext = Inr ys \<and> collect_files e' root ext = Inr ys
           \<and> mset ys = mset (discover e root ext)
           \<and> (\<forall>i j. i < j \<and> j < length ys \<longrightarrow>
                (\<exists>n m. part_key (ys ! i) = Inr (n, ys ! i) \<and> part_key (ys ! j) = Inr (m, ys ! j)
                       \<and> (n < m \<or> (n = m \<and> ys ! i \<le> ys ! j))))"
proof -
  let ?k = "\<lambda>x. projr (part_key x)"
  let ?xs = "discover e root ext" and ?xs' = "discover e' root ext"
  let ?ys = "sort_key ?k ?xs"
  have ok: "\<forall>x \<in> set ?xs. \<exists>n. part_key x = Inr (n, x)"
    using part_key_discovered [OF assms(2)] by blast
  have m: "mset ?xs' = mset ?xs" by (rule discover_mset [OF assms(1)])
  then have "set ?xs' = set ?xs" by (metis set_mset_mset)
  with ok have ok': "\<forall>x \<in> set ?xs'. \<exists>n. part_key x = Inr (n, x)" by simp
  have inj: "inj_on ?k (set ?xs)"
  proof (rule inj_onI)
    fix x y
    assume "x \<in> set ?xs" "y \<in> set ?xs" "?k x = ?k y"
    with ok show "x = y" by (metis prod.inject sum.sel(2))
  qed
  have 1: "collect_files e root ext = Inr ?ys"
    by (simp add: collect_files_def sort_files_ok [OF ok])
  have 2: "collect_files e' root ext = Inr ?ys"
    using sort_key_same_mset [OF m [symmetric] inj]
    by (simp add: collect_files_def sort_files_ok [OF ok'])
  have 3: "mset ?ys = mset ?xs" by simp
  have 4: "\<exists>n m. part_key (?ys ! i) = Inr (n, ?ys ! i) \<and> part_key (?ys ! j) = Inr (m, ?ys ! j)
              \<and> (n < m \<or> (n = m \<and> ?ys ! i \<le> ?ys ! j))"
    if ij: "i < j \<and> j < length ?ys" for i j
  proof -
    from ij have "?ys ! i \<in> set ?xs" "?ys ! j \<in> set ?xs"
      by (metis nth_mem set_sort order.strict_trans, metis nth_mem set_sort)
    with ok obtain n m where n: "part_key (?ys ! i) = Inr (n, ?ys ! i)"
      and m: "part_key (?ys ! j) = Inr (m, ?ys ! j)" by blast
    have "sorted (map ?k ?ys)" by simp
    with ij have "map ?k ?ys ! i \<le> map ?k ?ys ! j"
      by (intro sorted_nth_mono) simp_all
    with ij n m have "(n, ?ys ! i) \<le> (m, ?ys ! j)" by simp
    then have "n < m \<or> (n = m \<and> ?ys ! i \<le> ?ys ! j)"
      by (auto simp: less_eq_prod_def)
    with n m show ?thesis by blast
  qed
  from 1 2 3 4 show ?thesis by blast
qed

theorem collector_sorts_by_partition_witness:
  "mset (listing \<lparr>listing = [''src/part0/a.md'', ''src/part1/m.md'', ''src/part0/b.md'',
                              ''src/part2/z.md''], files = Map.empty\<rparr>)
     = mset (listing \<lparr>listing = [''src/part2/z.md'', ''src/part0/b.md'', ''src/part1/m.md'',
                                  ''src/part0/a.md''], files = Map.empty\<rparr>)
   \<and> collect_files \<lparr>listing = [''src/part2/z.md'', ''src/part0/b.md'', ''src/part1/m.md'',
                                ''src/part0/a.md''], files = Map.empty\<rparr> ''src'' ''.md''
       = Inr [''src/part0/a.md'', ''src/part0/b.md'', ''src/part1/m.md'', ''src/part2/z.md'']
   \<and> collect_files \<lparr>listing = [''src/part0/a.md'', ''src/part1/m.md'', ''src/part0/b.md'',
                                ''src/part2/z.md''], files = Map.empty\<rparr> ''src'' ''.md''
       = Inr [''src/part0/a.md'', ''src/part0/b.md'', ''src/part1/m.md'', ''src/part2/z.md'']"
proof -
  let ?e = "\<lparr>listing = [''src/part2/z.md'', ''src/part0/b.md'', ''src/part1/m.md'',
                         ''src/part0/a.md''], files = Map.empty\<rparr>"
  let ?e' = "\<lparr>listing = [''src/part0/a.md'', ''src/part1/m.md'', ''src/part0/b.md'',
                          ''src/part2/z.md''], files = Map.empty\<rparr>"
  have p: "mset (listing ?e') = mset (listing ?e)" by simp
  have c: "collect_files ?e ''src'' ''.md''
      = Inr [''src/part0/a.md'', ''src/part0/b.md'', ''src/part1/m.md'', ''src/part2/z.md'']"
    by code_simp
  from collector_sorts_by_partition [OF p, of "''src''" "''.md''"] c p
  show ?thesis by auto
qed

section \<open>The batch of all files\<close>





section \<open>What the matcher does on the patterns of the scripts\<close>

text \<open>A literal at the head of a pattern matches exactly when the text starts with it.\<close>

lemma match_lit:
  "match_here fl (lit l @ p) adv prev s =
     (if l = [] then match_here fl p adv prev s
      else if prefix l s then match_here fl p False (Some (last l)) (drop (length l) s)
      else None)"
proof (induction l arbitrary: adv prev s)
  case Nil
  show ?case by (simp add: lit_def)
next
  case (Cons c l)
  show ?case
  proof (cases s)
    case Nil
    then show ?thesis by (simp add: lit_def)
  next
    case (Cons x xs)
    with Cons.IH [of False "Some x" xs] show ?thesis
      by (auto simp: lit_def)
  qed
qed

lemma prefix_append_short:
  "prefix l (u @ v) \<Longrightarrow> length l \<le> length u \<Longrightarrow> prefix l u"
  by (metis prefix_append prefix_length_prefix prefix_order.order_refl)

text \<open>
  The lazy group before a literal: the group takes the text up to the first occurrence of
  the literal, provided the dot can pass every character on the way.
\<close>

lemma match_lazy_until:
  assumes "l \<noteq> []" and "\<not> sublist l (b @ butlast l)"
    and "\<forall>x \<in> set b. dot_matches fl x"
  shows "match_here fl (LazyAny # lit l) adv prev (b @ l @ r) = Some ([b], r)"
  using assms(2,3)
proof (induction b arbitrary: adv prev)
  case Nil
  from assms(1) obtain c l' where l: "l = c # l'" by (cases l) auto
  have "match_here fl (lit l) adv prev (l @ r) = Some ([], r)"
    using match_lit [of fl l "[]" adv prev "l @ r"] assms(1) by simp
  then show ?case by (simp add: l)
next
  case (Cons x b)
  have np: "\<not> prefix l (x # b @ l @ r)"
  proof
    assume "prefix l (x # b @ l @ r)"
    moreover have "l @ r = butlast l @ (last l # r)"
      using assms(1) by (metis append_butlast_last_id append.assoc append_Cons append_Nil)
    ultimately have "prefix l (((x # b) @ butlast l) @ (last l # r))"
      by simp
    moreover have "length l \<le> length ((x # b) @ butlast l)" by simp
    ultimately have "prefix l ((x # b) @ butlast l)" by (rule prefix_append_short)
    with Cons.prems(1) show False by auto
  qed
  then have first: "match_here fl (lit l) adv prev (x # b @ l @ r) = None"
    using match_lit [of fl l "[]" adv prev "x # b @ l @ r"] assms(1) by simp
  have "\<not> sublist l (b @ butlast l)"
    using Cons.prems(1) by (auto simp: sublist_Cons_right)
  with Cons.IH [of False "Some x"] Cons.prems(2)
  have "match_here fl (LazyAny # lit l) False (Some x) (b @ l @ r) = Some ([b], r)" by simp
  with first Cons.prems(2) show ?case by simp
qed

text \<open>The delimited span \<open>open(.*?)close\<close> at a position where the text starts with it.\<close>

lemma match_span:
  assumes "l1 \<noteq> []" and "l2 \<noteq> []" and "\<not> sublist l2 (b @ butlast l2)"
    and "\<forall>x \<in> set b. dot_matches fl x"
  shows "match_here fl (lit l1 @ [LazyAny] @ lit l2) adv prev (l1 @ b @ l2 @ r) = Some ([b], r)"
  using match_lit [of fl l1 "[LazyAny] @ lit l2" adv prev "l1 @ b @ l2 @ r"]
    match_lazy_until [OF assms(2,3,4)] assms(1)
  by simp

text \<open>A match of the span pattern has the shape of the pattern.\<close>

lemma match_lazy_shape:
  "match_here fl (LazyAny # lit l) adv prev s = Some (gs, r) \<Longrightarrow> \<exists>b. gs = [b] \<and> s = b @ l @ r"
proof (induction s arbitrary: adv prev gs r)
  case Nil
  then show ?case
    using match_lit [of fl l "[]" adv prev "[]"]
    by (auto split: option.splits if_splits)
next
  case (Cons x xs)
  show ?case
  proof (cases "match_here fl (lit l) adv prev (x # xs)")
    case (Some m)
    then obtain gs' r' where m: "m = (gs', r')" by (cases m)
    with Some Cons.prems have "gs = [] # gs'" "r = r'" by auto
    moreover from Some m have "gs' = [] \<and> x # xs = l @ r'"
      using match_lit [of fl l "[]" adv prev "x # xs"]
      by (auto split: if_splits simp: prefix_def)
    ultimately show ?thesis by auto
  next
    case None
    with Cons.prems obtain g gs' where
      rec: "match_here fl (LazyAny # lit l) False (Some x) xs = Some (g # gs', r)"
      and gs: "gs = (x # g) # gs'"
      by (auto split: if_splits option.splits list.splits)
    from Cons.IH [OF rec] obtain b where "g # gs' = [b]" "xs = b @ l @ r" by blast
    with gs show ?thesis by auto
  qed
qed

lemma match_span_shape:
  assumes "match_here fl (lit l1 @ [LazyAny] @ lit l2) adv prev s = Some (gs, r)"
  shows "\<exists>b. gs = [b] \<and> s = l1 @ b @ l2 @ r"
proof (cases "l1 = []")
  case True
  with assms show ?thesis using match_lazy_shape [of fl l2 adv prev s gs r] by (simp add: lit_def)
next
  case False
  with assms have p: "prefix l1 s"
    and m: "match_here fl (LazyAny # lit l2) False (Some (last l1)) (drop (length l1) s) = Some (gs, r)"
    using match_lit [of fl l1 "[LazyAny] @ lit l2" adv prev s]
    by (auto split: if_splits)
  from match_lazy_shape [OF m] obtain b where "gs = [b]" "drop (length l1) s = b @ l2 @ r" by blast
  moreover from p have "s = l1 @ drop (length l1) s" by (auto simp: prefix_def)
  ultimately show ?thesis by metis
qed

text \<open>\<open>re.search\<close> for a span: nothing is found in a text without the opening literal.\<close>

lemma search_no_open:
  assumes "l1 \<noteq> []" and "\<not> sublist l1 s"
  shows "search_from fl (lit l1 @ p) prev s = None"
  using assms(2)
proof (induction s arbitrary: prev)
  case Nil
  then show ?case using match_lit [of fl l1 p False prev "[]"] assms(1) by simp
next
  case (Cons x xs)
  from Cons.prems have "\<not> prefix l1 (x # xs)" by auto
  then have "match_here fl (lit l1 @ p) False prev (x # xs) = None"
    using match_lit [of fl l1 p False prev "x # xs"] assms(1) by simp
  moreover from Cons.prems have "\<not> sublist l1 xs" by (auto simp: sublist_Cons_right)
  ultimately show ?case using Cons.IH by simp
qed

lemma search_no_close:
  assumes "\<not> sublist l2 s"
  shows "search_from fl (lit l1 @ [LazyAny] @ lit l2) prev s = None"
  using assms
proof (induction s arbitrary: prev)
  case Nil
  show ?case
  proof (rule ccontr)
    assume "search_from fl (lit l1 @ [LazyAny] @ lit l2) prev [] \<noteq> None"
    then obtain gs r where "match_here fl (lit l1 @ [LazyAny] @ lit l2) False prev [] = Some (gs, r)"
      by auto
    from match_span_shape [OF this] Nil show False by auto
  qed
next
  case (Cons x xs)
  have "match_here fl (lit l1 @ [LazyAny] @ lit l2) False prev (x # xs) = None"
  proof (rule ccontr)
    assume "match_here fl (lit l1 @ [LazyAny] @ lit l2) False prev (x # xs) \<noteq> None"
    then obtain gs r where "match_here fl (lit l1 @ [LazyAny] @ lit l2) False prev (x # xs) = Some (gs, r)"
      by auto
    from match_span_shape [OF this] obtain b where "x # xs = l1 @ b @ l2 @ r" by blast
    then have "x # xs = (l1 @ b) @ l2 @ r" by simp
    then have "sublist l2 (x # xs)" unfolding sublist_def by blast
    with Cons.prems show False by simp
  qed
  moreover from Cons.prems have "\<not> sublist l2 xs" by (auto simp: sublist_Cons_right)
  ultimately show ?case using Cons.IH by simp
qed

text \<open>\<open>re.search\<close> finds the first opening literal and, behind it, the first closing one.\<close>

lemma search_first_span:
  assumes "l1 \<noteq> []" and "l2 \<noteq> []"
    and "\<not> sublist l1 (pre @ butlast l1)"
    and "\<not> sublist l2 (b @ butlast l2)"
    and "\<forall>x \<in> set b. dot_matches fl x"
  shows "search_from fl (lit l1 @ [LazyAny] @ lit l2) prev (pre @ l1 @ b @ l2 @ r) = Some ([b], r)"
  using assms(3)
proof (induction pre arbitrary: prev)
  case Nil
  from assms(1) obtain c l' where l1: "l1 = c # l'" by (cases l1) auto
  have "match_here fl (lit l1 @ [LazyAny] @ lit l2) False prev (l1 @ b @ l2 @ r) = Some ([b], r)"
    by (rule match_span [OF assms(1,2,4,5)])
  then show ?case by (simp add: l1)
next
  case (Cons x pre)
  have "\<not> prefix l1 (x # pre @ l1 @ b @ l2 @ r)"
  proof
    assume "prefix l1 (x # pre @ l1 @ b @ l2 @ r)"
    moreover have "l1 @ b @ l2 @ r = butlast l1 @ (last l1 # b @ l2 @ r)"
      using assms(1) by (metis append_butlast_last_id append.assoc append_Cons append_Nil)
    ultimately have "prefix l1 (((x # pre) @ butlast l1) @ (last l1 # b @ l2 @ r))"
      by simp
    moreover have "length l1 \<le> length ((x # pre) @ butlast l1)" by simp
    ultimately have "prefix l1 ((x # pre) @ butlast l1)" by (rule prefix_append_short)
    with Cons.prems show False by auto
  qed
  then have "match_here fl (lit l1 @ [LazyAny] @ lit l2) False prev (x # pre @ l1 @ b @ l2 @ r) = None"
    using match_lit [of fl l1 "[LazyAny] @ lit l2" False prev "x # pre @ l1 @ b @ l2 @ r"] assms(1)
    by simp
  moreover have "\<not> sublist l1 (pre @ butlast l1)"
    using Cons.prems by (auto simp: sublist_Cons_right)
  ultimately show ?case using Cons.IH by simp
qed

section \<open>The combiner\<close>

lemma container_sub_ok:
  "re_sub (lit a @ LazyAny # lit b) [Grp (Suc 0)] body fl
     = Inr (sub_loop fl (lit a @ LazyAny # lit b) [Grp (Suc 0)] False None body)"
  by (simp add: re_sub_def ngroups_def lit_def)

lemma file_section_unreadable:
  "files e html_file = None \<Longrightarrow> file_section e html_file = []"
  by (simp add: file_section_def read_file_def and_then_def)

lemma file_section_no_body:
  assumes "files e html_file = Some content"
    and "\<not> sublist ''<body>'' content \<or> \<not> sublist ''</body>'' content"
  shows "file_section e html_file = []"
proof -
  have "re_search (lit ''<body>'' @ [LazyAny] @ lit ''</body>'') content [DOTALL] = None"
    using assms(2) search_no_open [of "''<body>''" content "[DOTALL]" "[LazyAny] @ lit ''</body>''" None]
      search_no_close [of "''</body>''" content "[DOTALL]" "''<body>''" None]
    by (auto simp: re_search_def)
  with assms(1) show ?thesis
    by (simp add: file_section_def read_file_def and_then_def)
qed

lemma file_section_first_body:
  assumes "files e html_file = Some (pre @ ''<body>'' @ body @ ''</body>'' @ post)"
    and "\<not> sublist ''<body>'' (pre @ ''<body'')"
    and "\<not> sublist ''</body>'' (body @ ''</body'')"
  shows \<open>file_section e html_file =
           [''<div id="'' @ replace (basename html_file) ''.html'' [] @ ''">'',
            sub_loop [DOTALL] (lit ''<div class="container">'' @ [LazyAny] @ lit ''</div>'')
              [Grp 1] False None body,
            ''</div>'', page_break]\<close>
proof -
  have "re_search (lit ''<body>'' @ [LazyAny] @ lit ''</body>'')
          (pre @ ''<body>'' @ body @ ''</body>'' @ post) [DOTALL] = Some ([body], post)"
    unfolding re_search_def
    using search_first_span [of "''<body>''" "''</body>''" pre body "[DOTALL]" None post] assms(2,3)
    by (simp add: dot_matches_def)
  with assms(1) show ?thesis
    by (simp add: file_section_def read_file_def and_then_def container_sub_ok Let_def)
qed

text \<open>
  C8. A file whose text has a body: the section holds what stands between the first
  \<open><body>\<close> and the first \<open></body>\<close> behind it, with the container elements taken out by
  the substitution; what follows the first body is not looked at. A file without the
  opening or without the closing marker contributes nothing, and the loop goes on.
\<close>

theorem combiner_takes_first_body:
  assumes "files e html_file = Some content"
  shows \<open>(content = pre @ ''<body>'' @ body @ ''</body>'' @ post
            \<and> \<not> sublist ''<body>'' (pre @ ''<body'') \<and> \<not> sublist ''</body>'' (body @ ''</body'')
          \<longrightarrow> (\<exists>stripped.
                 re_sub (lit ''<div class="container">'' @ [LazyAny] @ lit ''</div>'') [Grp 1] body
                   [DOTALL] = Inr stripped
               \<and> file_section e html_file =
                   [''<div id="'' @ replace (basename html_file) ''.html'' [] @ ''">'', stripped,
                    ''</div>'', page_break]))
       \<and> (\<not> sublist ''<body>'' content \<or> \<not> sublist ''</body>'' content
          \<longrightarrow> file_section e html_file = [])\<close>
  using assms file_section_first_body [of e html_file pre body post]
    file_section_no_body [of e html_file content]
  by (auto simp: container_sub_ok)

theorem combiner_takes_first_body_witness:
  \<open>file_section
     \<lparr>listing = [], files = [''html_output/part0/a.html'' \<mapsto> ''x<body>A</body>y<body>B</body>'',
                             ''html_output/part0/b.html'' \<mapsto> ''<p>no marker</p>'']\<rparr>
     ''html_output/part0/a.html''
     = [''<div id="a">'', ''A'', ''</div>'', page_break]
   \<and> file_section
     \<lparr>listing = [], files = [''html_output/part0/a.html'' \<mapsto> ''x<body>A</body>y<body>B</body>'',
                             ''html_output/part0/b.html'' \<mapsto> ''<p>no marker</p>'']\<rparr>
     ''html_output/part0/b.html''
     = []\<close>
proof -
  let ?e = "\<lparr>listing = [], files = [''html_output/part0/a.html'' \<mapsto> ''x<body>A</body>y<body>B</body>'',
                             ''html_output/part0/b.html'' \<mapsto> ''<p>no marker</p>'']\<rparr>"
  have a: "files ?e ''html_output/part0/a.html'' = Some (''x'' @ ''<body>'' @ ''A'' @ ''</body>'' @ ''y<body>B</body>'')"
    by simp
  have b: "files ?e ''html_output/part0/b.html'' = Some ''<p>no marker</p>''"
    by simp
  have n1: "\<not> sublist ''<body>'' (''x'' @ ''<body'')" by code_simp
  have n2: "\<not> sublist ''</body>'' (''A'' @ ''</body'')" by code_simp
  have n3: "\<not> sublist ''<body>'' ''<p>no marker</p>''" by code_simp
  have s: \<open>re_sub (lit ''<div class="container">'' @ [LazyAny] @ lit ''</div>'') [Grp 1] ''A'' [DOTALL]
      = Inr ''A''\<close> by code_simp
  have r: \<open>replace (basename ''html_output/part0/a.html'') ''.html'' [] = ''a''\<close> by code_simp
  from combiner_takes_first_body [OF a, of "''x''" "''A''" "''y<body>B</body>''"] n1 n2 s r
  have 1: \<open>file_section ?e ''html_output/part0/a.html'' = [''<div id="a">'', ''A'', ''</div>'', page_break]\<close>
    by simp
  from combiner_takes_first_body [OF b] n3
  have 2: "file_section ?e ''html_output/part0/b.html'' = []" by simp
  from 1 2 show ?thesis by simp
qed

lemma file_section_cases:
  \<open>file_section e html_file = []
   \<or> (\<exists>body_content. file_section e html_file =
         [''<div id="'' @ replace (basename html_file) ''.html'' [] @ ''">'', body_content,
          ''</div>'', page_break])\<close>
  by (auto simp: file_section_def read_file_def and_then_def container_sub_ok Let_def
      split: option.splits)

lemma sections_subseq:
  \<open>\<exists>kept. subseq (map fst kept) all_files
     \<and> concat (map (file_section e) all_files) =
         concat (map (\<lambda>(html_file, body_content).
           [''<div id="'' @ replace (basename html_file) ''.html'' [] @ ''">'', body_content,
            ''</div>'', page_break]) kept)\<close>
proof (induction all_files)
  case Nil
  show ?case by (rule exI [of _ "[]"]) simp
next
  case (Cons f fs)
  then obtain kept where k: "subseq (map fst kept) fs"
    and c: \<open>concat (map (file_section e) fs) =
         concat (map (\<lambda>(html_file, body_content).
           [''<div id="'' @ replace (basename html_file) ''.html'' [] @ ''">'', body_content,
            ''</div>'', page_break]) kept)\<close> by blast
  from file_section_cases [of e f] show ?case
  proof
    assume "file_section e f = []"
    with k c show ?thesis by (intro exI [of _ kept]) (simp add: list_emb_Cons)
  next
    assume \<open>\<exists>body_content. file_section e f =
         [''<div id="'' @ replace (basename f) ''.html'' [] @ ''">'', body_content,
          ''</div>'', page_break]\<close>
    then obtain b where \<open>file_section e f =
         [''<div id="'' @ replace (basename f) ''.html'' [] @ ''">'', b, ''</div>'', page_break]\<close> ..
    with k c show ?thesis by (intro exI [of _ "(f, b) # kept"]) simp
  qed
qed

text \<open>
  C10. The content that \<open>create_combined_html\<close> assembles: after the title page comes the
  table of contents with one entry per file, in the order of the files, whose anchor is the
  base name of the file; then come the sections, one for each file of a sublist \<open>kept\<close> of
  the files, in the same order, each in a container whose id is the base name of its file.
\<close>

theorem sections_follow_toc:
  \<open>\<exists>kept. subseq (map fst kept) all_files
     \<and> combined_content tx e all_files =
         [title_page tx,
          toc_open tx
            @ concat (map (\<lambda>html_file.
                ''<li><a href="#'' @ replace (basename html_file) ''.html'' [] @ ''">''
                  @ replace (replace (basename html_file) ''.html'' []) ''_'' '' '' @ ''</a></li>'')
                all_files)
            @ toc_close]
         @ concat (map (\<lambda>(html_file, body_content).
             [''<div id="'' @ replace (basename html_file) ''.html'' [] @ ''">'', body_content,
              ''</div>'', page_break]) kept)\<close>
proof -
  from sections_subseq [of all_files e] obtain kept where "subseq (map fst kept) all_files"
    and \<open>concat (map (file_section e) all_files) =
         concat (map (\<lambda>(html_file, body_content).
           [''<div id="'' @ replace (basename html_file) ''.html'' [] @ ''">'', body_content,
            ''</div>'', page_break]) kept)\<close> by blast
  moreover have \<open>toc_entry = (\<lambda>html_file.
                ''<li><a href="#'' @ replace (basename html_file) ''.html'' [] @ ''">''
                  @ replace (replace (basename html_file) ''.html'' []) ''_'' '' '' @ ''</a></li>'')\<close>
    by (rule ext) (simp add: toc_entry_def Let_def)
  ultimately show ?thesis
    by (intro exI [of _ kept]) (simp add: combined_content_def)
qed

text \<open>An entry of the table of contents without a section: a file that cannot be read.\<close>

lemma toc_entry_without_section:
  \<open>combined_content tx \<lparr>listing = [''html_output/part0/a.html''], files = Map.empty\<rparr>
     [''html_output/part0/a.html'']
   = [title_page tx, toc_open tx @ ''<li><a href="#a">a</a></li>'' @ toc_close]\<close>
proof -
  have \<open>toc_entry ''html_output/part0/a.html'' = ''<li><a href="#a">a</a></li>''\<close> by code_simp
  then show ?thesis
    by (simp add: combined_content_def file_section_unreadable)
qed

section \<open>The header rules, line by line\<close>

lemma join_split_fields: "join [c] (split_fields [c] s) = s"
proof (induction s)
  case Nil
  show ?case by (simp add: split_fields.simps)
next
  case (Cons x xs)
  obtain f fs where f: "split_fields [c] xs = f # fs"
    using split_fields_not_Nil [of "[c]" xs] by (cases "split_fields [c] xs") auto
  with Cons show ?case
    by (cases fs) (auto simp: split_fields.simps)
qed

lemma split_fields_free: "l \<in> set (split_fields [c] s) \<Longrightarrow> c \<notin> set l"
proof (induction s arbitrary: l)
  case Nil
  then show ?case by (simp add: split_fields.simps)
next
  case (Cons x xs)
  obtain f fs where f: "split_fields [c] xs = f # fs"
    using split_fields_not_Nil [of "[c]" xs] by (cases "split_fields [c] xs") auto
  with Cons show ?case
    by (auto simp: split_fields.simps split: if_splits)
qed

lemma match_to_eol:
  "match_here [MULTILINE] [LazyAny, Eol] False prev s
     = Some ([takeWhile (\<lambda>x. x \<noteq> NL) s], dropWhile (\<lambda>x. x \<noteq> NL) s)"
  by (induction s arbitrary: prev) (auto simp: at_eol_def dot_matches_def)

lemma at_bol_multiline [simp]:
  "at_bol [MULTILINE] prev \<longleftrightarrow> prev = None \<or> prev = Some NL"
  by (cases prev) (auto simp: at_bol_def)

lemma match_line:
  assumes "h \<noteq> []"
  shows "match_here [MULTILINE] (lit h @ [LazyAny, Eol]) False prev s =
           (if prefix h s
            then Some ([takeWhile (\<lambda>x. x \<noteq> NL) (drop (length h) s)],
                       dropWhile (\<lambda>x. x \<noteq> NL) (drop (length h) s))
            else None)"
  using assms match_lit [of "[MULTILINE]" h "[LazyAny, Eol]" False prev s]
  by (auto simp: match_to_eol)

lemma takeWhile_line [simp]:
  "NL \<notin> set r \<Longrightarrow> takeWhile (\<lambda>x. x \<noteq> NL) (r @ NL # t) = r"
  by (induction r) auto

lemma dropWhile_line [simp]:
  "NL \<notin> set r \<Longrightarrow> dropWhile (\<lambda>x. x \<noteq> NL) (r @ NL # t) = NL # t"
  by (induction r) auto

lemma takeWhile_last_line [simp]:
  "NL \<notin> set r \<Longrightarrow> takeWhile (\<lambda>x. x \<noteq> NL) r = r"
  by (induction r) auto

lemma dropWhile_last_line [simp]:
  "NL \<notin> set r \<Longrightarrow> dropWhile (\<lambda>x. x \<noteq> NL) r = []"
  by (induction r) auto

lemma prefix_before_newline:
  assumes "NL \<notin> set h" and "prefix h (l @ NL # t)"
  shows "prefix h l"
proof -
  from assms(2) consider "prefix h l" | us where "h = l @ us" "prefix us (NL # t)"
    by (auto simp: prefix_append)
  then show ?thesis
  proof cases
    case 1
    then show ?thesis .
  next
    case 2
    with assms(1) show ?thesis by (cases us) auto
  qed
qed

lemma sub_line_end:
  assumes "h \<noteq> []"
  shows "sub_loop [MULTILINE] (Bol # lit h @ [LazyAny, Eol]) rp False prev [] = []"
  using assms by (subst sub_loop.simps) (simp add: match_line)

lemma sub_line_copy:
  assumes "h \<noteq> []" and "p \<noteq> NL"
  shows "sub_loop [MULTILINE] (Bol # lit h @ [LazyAny, Eol]) rp False (Some p) (x # t)
           = x # sub_loop [MULTILINE] (Bol # lit h @ [LazyAny, Eol]) rp False (Some x) t"
  using assms by (subst sub_loop.simps) (simp add: match_line)

lemma sub_line_copy_rest:
  assumes "h \<noteq> []"
  shows "p \<noteq> NL \<Longrightarrow> NL \<notin> set l \<Longrightarrow>
         sub_loop [MULTILINE] (Bol # lit h @ [LazyAny, Eol]) rp False (Some p) (l @ NL # t)
           = l @ NL # sub_loop [MULTILINE] (Bol # lit h @ [LazyAny, Eol]) rp False (Some NL) t"
proof (induction l arbitrary: p)
  case Nil
  then show ?case using sub_line_copy [OF assms, of p rp NL t] by simp
next
  case (Cons x l)
  then have x: "x \<noteq> NL" and l: "NL \<notin> set l" by auto
  have "sub_loop [MULTILINE] (Bol # lit h @ [LazyAny, Eol]) rp False (Some p) (x # l @ NL # t)
      = x # sub_loop [MULTILINE] (Bol # lit h @ [LazyAny, Eol]) rp False (Some x) (l @ NL # t)"
    by (rule sub_line_copy [OF assms Cons.prems(1)])
  also have "\<dots> = x # l @ NL #
      sub_loop [MULTILINE] (Bol # lit h @ [LazyAny, Eol]) rp False (Some NL) t"
    by (simp only: Cons.IH [OF x l])
  finally show ?case by simp
qed

lemma sub_line_copy_last:
  assumes "h \<noteq> []"
  shows "p \<noteq> NL \<Longrightarrow> NL \<notin> set l \<Longrightarrow>
         sub_loop [MULTILINE] (Bol # lit h @ [LazyAny, Eol]) rp False (Some p) l = l"
proof (induction l arbitrary: p)
  case Nil
  show ?case by (rule sub_line_end [OF assms])
next
  case (Cons x l)
  then have x: "x \<noteq> NL" and l: "NL \<notin> set l" by auto
  have "sub_loop [MULTILINE] (Bol # lit h @ [LazyAny, Eol]) rp False (Some p) (x # l)
      = x # sub_loop [MULTILINE] (Bol # lit h @ [LazyAny, Eol]) rp False (Some x) l"
    by (rule sub_line_copy [OF assms Cons.prems(1)])
  also have "\<dots> = x # l" by (simp only: Cons.IH [OF x l])
  finally show ?case .
qed

text \<open>A line that is followed by another one.\<close>

lemma sub_line_newline:
  assumes h: "h \<noteq> []" "NL \<notin> set h" and l: "NL \<notin> set l"
    and prev: "prev = None \<or> prev = Some NL"
  shows "sub_loop [MULTILINE] (Bol # lit h @ [LazyAny, Eol]) [Txt op, Grp (Suc 0), Txt cl] False prev
           (l @ NL # t)
         = tag_line h op cl l @ NL #
             sub_loop [MULTILINE] (Bol # lit h @ [LazyAny, Eol]) [Txt op, Grp (Suc 0), Txt cl] False
               (Some NL) t"
proof (cases "prefix h l")
  case True
  then obtain r where r: "l = h @ r" by (auto simp: prefix_def)
  with l have nr: "NL \<notin> set r" by simp
  from r h(1) have ne: "l \<noteq> []" by simp
  with l have last: "last l \<noteq> NL" by (metis last_in_set)
  have m: "match_here [MULTILINE] (lit h @ [LazyAny, Eol]) False prev (l @ NL # t)
             = Some ([r], NL # t)"
    using prev nr by (simp add: match_line [OF h(1)] r)
  have "sub_loop [MULTILINE] (Bol # lit h @ [LazyAny, Eol]) [Txt op, Grp (Suc 0), Txt cl] False prev
           (l @ NL # t)
        = op @ r @ cl @
            sub_loop [MULTILINE] (Bol # lit h @ [LazyAny, Eol]) [Txt op, Grp (Suc 0), Txt cl] False
              (Some (last l)) (NL # t)"
    using ne prev by (subst sub_loop.simps) (auto simp: m)
  also have "\<dots> = op @ r @ cl @ NL #
            sub_loop [MULTILINE] (Bol # lit h @ [LazyAny, Eol]) [Txt op, Grp (Suc 0), Txt cl] False
              (Some NL) t"
    by (simp add: sub_line_copy [OF h(1) last])
  finally show ?thesis using True by (simp add: tag_line_def r)
next
  case False
  then have np: "\<not> prefix h (l @ NL # t)"
    using prefix_before_newline [OF h(2)] by blast
  have m: "match_here [MULTILINE] (lit h @ [LazyAny, Eol]) False prev (l @ NL # t) = None"
    using np by (simp add: match_line [OF h(1)])
  show ?thesis
  proof (cases l)
    case Nil
    with m False prev show ?thesis
      by (subst sub_loop.simps) (auto simp: tag_line_def)
  next
    case (Cons x l')
    with l have x: "x \<noteq> NL" "NL \<notin> set l'" by auto
    have "sub_loop [MULTILINE] (Bol # lit h @ [LazyAny, Eol]) [Txt op, Grp (Suc 0), Txt cl] False prev
           (l @ NL # t)
        = x # sub_loop [MULTILINE] (Bol # lit h @ [LazyAny, Eol]) [Txt op, Grp (Suc 0), Txt cl] False
                (Some x) (l' @ NL # t)"
      using m prev by (subst sub_loop.simps) (auto simp: Cons)
    with x False show ?thesis
      by (simp add: sub_line_copy_rest [OF h(1)] tag_line_def Cons)
  qed
qed

text \<open>The last line of the text.\<close>

lemma sub_line_last:
  assumes h: "h \<noteq> []" "NL \<notin> set h" and l: "NL \<notin> set l"
    and prev: "prev = None \<or> prev = Some NL"
  shows "sub_loop [MULTILINE] (Bol # lit h @ [LazyAny, Eol]) [Txt op, Grp (Suc 0), Txt cl] False prev l
         = tag_line h op cl l"
proof (cases "prefix h l")
  case True
  then obtain r where r: "l = h @ r" by (auto simp: prefix_def)
  with l have nr: "NL \<notin> set r" by simp
  from r h(1) have ne: "l \<noteq> []" by simp
  have m: "match_here [MULTILINE] (lit h @ [LazyAny, Eol]) False prev l = Some ([r], [])"
    using prev nr by (simp add: match_line [OF h(1)] r)
  have "sub_loop [MULTILINE] (Bol # lit h @ [LazyAny, Eol]) [Txt op, Grp (Suc 0), Txt cl] False prev l
        = op @ r @ cl @
            sub_loop [MULTILINE] (Bol # lit h @ [LazyAny, Eol]) [Txt op, Grp (Suc 0), Txt cl] False
              (Some (last l)) []"
    using ne prev by (subst sub_loop.simps) (auto simp: m)
  then show ?thesis using True by (simp add: sub_line_end [OF h(1)] tag_line_def r)
next
  case False
  have m: "match_here [MULTILINE] (lit h @ [LazyAny, Eol]) False prev l = None"
    using False by (simp add: match_line [OF h(1)])
  show ?thesis
  proof (cases l)
    case Nil
    with False show ?thesis by (simp add: sub_line_end [OF h(1)] tag_line_def)
  next
    case (Cons x l')
    with l have x: "x \<noteq> NL" "NL \<notin> set l'" by auto
    have "sub_loop [MULTILINE] (Bol # lit h @ [LazyAny, Eol]) [Txt op, Grp (Suc 0), Txt cl] False prev l
        = x # sub_loop [MULTILINE] (Bol # lit h @ [LazyAny, Eol]) [Txt op, Grp (Suc 0), Txt cl] False
                (Some x) l'"
      using m prev by (subst sub_loop.simps) (auto simp: Cons)
    with x False show ?thesis
      by (simp add: sub_line_copy_last [OF h(1)] tag_line_def Cons)
  qed
qed

lemma sub_lines:
  assumes h: "h \<noteq> []" "NL \<notin> set h"
  shows "ls \<noteq> [] \<Longrightarrow> \<forall>l \<in> set ls. NL \<notin> set l \<Longrightarrow> prev = None \<or> prev = Some NL \<Longrightarrow>
         sub_loop [MULTILINE] (Bol # lit h @ [LazyAny, Eol]) [Txt op, Grp (Suc 0), Txt cl] False prev
           (join [NL] ls)
         = join [NL] (map (tag_line h op cl) ls)"
proof (induction ls arbitrary: prev)
  case Nil
  then show ?case by simp
next
  case (Cons l ls)
  show ?case
  proof (cases ls)
    case Nil
    with Cons.prems show ?thesis by (simp add: sub_line_last [OF h])
  next
    case (Cons l2 ls2)
    with Cons.prems Cons.IH [of "Some NL"] show ?thesis
      by (simp add: sub_line_newline [OF h])
  qed
qed

lemma re_sub_lines:
  assumes "h \<noteq> []" "NL \<notin> set h" "ls \<noteq> []" "\<forall>l \<in> set ls. NL \<notin> set l"
  shows "re_sub (Bol # lit h @ [LazyAny, Eol]) [Txt op, Grp 1, Txt cl] (join [NL] ls) [MULTILINE]
         = Inr (join [NL] (map (tag_line h op cl) ls))"
  using sub_lines [OF assms(1,2,3,4), of None op cl]
  by (simp add: re_sub_def ngroups_def lit_def)

lemma tag_line_free:
  "NL \<notin> set op \<Longrightarrow> NL \<notin> set cl \<Longrightarrow> NL \<notin> set l \<Longrightarrow> NL \<notin> set (tag_line h op cl l)"
  by (auto simp: tag_line_def dest: in_set_dropD)

lemma heading_line_tags:
  "tag_line ''#### '' ''<h4>'' ''</h4>'' (tag_line ''### '' ''<h3>'' ''</h3>''
     (tag_line ''## '' ''<h2>'' ''</h2>'' (tag_line ''# '' ''<h1>'' ''</h1>'' l))) = heading_line l"
  by (simp add: tag_line_def heading_line_def eval_nat_numeral)

lemma headers_lines:
  assumes "ls \<noteq> []" "\<forall>l \<in> set ls. NL \<notin> set l"
  shows "headers (join [NL] ls) = Inr (join [NL] (map heading_line ls))"
proof -
  let ?t1 = "tag_line ''# '' ''<h1>'' ''</h1>''" and ?t2 = "tag_line ''## '' ''<h2>'' ''</h2>''"
  let ?t3 = "tag_line ''### '' ''<h3>'' ''</h3>''" and ?t4 = "tag_line ''#### '' ''<h4>'' ''</h4>''"
  have 1: "re_sub (Bol # lit ''# '' @ [LazyAny, Eol]) [Txt ''<h1>'', Grp 1, Txt ''</h1>'']
             (join [NL] ls) [MULTILINE] = Inr (join [NL] (map ?t1 ls))"
    by (rule re_sub_lines) (use assms in simp_all)
  have f1: "map ?t1 ls \<noteq> [] \<and> (\<forall>l \<in> set (map ?t1 ls). NL \<notin> set l)"
    using assms by (auto simp: tag_line_free)
  have 2: "re_sub (Bol # lit ''## '' @ [LazyAny, Eol]) [Txt ''<h2>'', Grp 1, Txt ''</h2>'']
             (join [NL] (map ?t1 ls)) [MULTILINE] = Inr (join [NL] (map ?t2 (map ?t1 ls)))"
    by (rule re_sub_lines) (use f1 in simp_all)
  have f2: "map ?t2 (map ?t1 ls) \<noteq> [] \<and> (\<forall>l \<in> set (map ?t2 (map ?t1 ls)). NL \<notin> set l)"
    using f1 by (auto simp: tag_line_free)
  have 3: "re_sub (Bol # lit ''### '' @ [LazyAny, Eol]) [Txt ''<h3>'', Grp 1, Txt ''</h3>'']
             (join [NL] (map ?t2 (map ?t1 ls))) [MULTILINE]
           = Inr (join [NL] (map ?t3 (map ?t2 (map ?t1 ls))))"
    by (rule re_sub_lines) (use f2 in simp_all)
  have f3: "map ?t3 (map ?t2 (map ?t1 ls)) \<noteq> []
      \<and> (\<forall>l \<in> set (map ?t3 (map ?t2 (map ?t1 ls))). NL \<notin> set l)"
    using f2 by (auto simp: tag_line_free)
  have 4: "re_sub (Bol # lit ''#### '' @ [LazyAny, Eol]) [Txt ''<h4>'', Grp 1, Txt ''</h4>'']
             (join [NL] (map ?t3 (map ?t2 (map ?t1 ls)))) [MULTILINE]
           = Inr (join [NL] (map ?t4 (map ?t3 (map ?t2 (map ?t1 ls)))))"
    by (rule re_sub_lines) (use f3 in simp_all)
  have "map ?t4 (map ?t3 (map ?t2 (map ?t1 ls))) = map heading_line ls"
    by (simp add: heading_line_tags)
  with 1 2 3 4 show ?thesis
    by (simp only: headers_def and_then_def sum.case)
qed

lemma headers_by_line:
  "headers md = Inr (join [NL] (map heading_line (split_fields [NL] md)))"
  using headers_lines [of "split_fields [NL] md"] split_fields_not_Nil [of "[NL]" md]
    split_fields_free [of _ NL md]
  by (auto simp: join_split_fields)

section \<open>What a span rule keeps\<close>

text \<open>
  A piece of text that has no character of a delimiter cannot lie across an occurrence of
  the delimiter.
\<close>

lemma prefix_disjoint_Nil:
  "prefix y (a @ v) \<Longrightarrow> a \<noteq> [] \<Longrightarrow> set y \<inter> set a = {} \<Longrightarrow> y = []"
  by (cases y; cases a) auto

lemma suffix_disjoint_Nil:
  "suffix y a \<Longrightarrow> set y \<inter> set a = {} \<Longrightarrow> y = []"
  by (cases y) (auto simp: suffix_def)

lemma sublist_disjoint_Nil:
  "sublist y a \<Longrightarrow> set y \<inter> set a = {} \<Longrightarrow> y = []"
  by (cases y) (auto simp: sublist_def)

lemma sublist_across:
  assumes "sublist y (u @ a @ v)" and "set y \<inter> set a = {}" and "a \<noteq> []"
  shows "sublist y u \<or> sublist y v"
proof -
  from assms(1) consider "sublist y u" | "sublist y (a @ v)"
    | y1 y2 where "y = y1 @ y2" "suffix y1 u" "prefix y2 (a @ v)"
    by (auto simp: sublist_append)
  then show ?thesis
  proof cases
    case 1
    then show ?thesis by simp
  next
    case 2
    then consider "sublist y a" | "sublist y v"
      | y1 y2 where "y = y1 @ y2" "suffix y1 a" "prefix y2 v"
      by (auto simp: sublist_append)
    then show ?thesis
    proof cases
      case 1
      from this assms(2) have "y = []" by (rule sublist_disjoint_Nil)
      then show ?thesis by simp
    next
      case 2
      then show ?thesis by simp
    next
      case 3
      from 3(1) assms(2) have "set y1 \<inter> set a = {}" by auto
      with 3(2) have "y1 = []" by (rule suffix_disjoint_Nil)
      with 3(1,3) show ?thesis by simp
    qed
  next
    case 3
    from 3(1) assms(2) have "set y2 \<inter> set a = {}" by auto
    with 3(3) assms(3) have "y2 = []" by (auto dest: prefix_disjoint_Nil)
    with 3(1,2) show ?thesis by simp
  qed
qed

lemma sublist_mid: "sublist y g \<Longrightarrow> sublist y (u @ g @ v)"
  by (metis sublist_appendI sublist_order.order.trans)

lemma re_sub_span:
  "re_sub (lit a @ [LazyAny] @ lit b) [Txt op, Grp 1, Txt cl] s fl
     = Inr (sub_loop fl (lit a @ LazyAny # lit b) [Txt op, Grp (Suc 0), Txt cl] False None s)"
  by (simp add: re_sub_def ngroups_def lit_def)

text \<open>
  The rule \<open>a(.*?)b\<close> with the replacement \<open>op\1cl\<close> replaces delimiters only: a piece of
  the text without any character of \<open>a\<close> and of \<open>b\<close> is still there afterwards.
\<close>

lemma sub_span_step:
  assumes "match_here fl (lit a @ LazyAny # lit b) adv prev s = Some (gs, r)" and "a \<noteq> []"
  shows "\<exists>g. s = a @ g @ b @ r
           \<and> sub_loop fl (lit a @ LazyAny # lit b) [Txt op, Grp (Suc 0), Txt cl] adv prev s
             = op @ g @ cl @
               sub_loop fl (lit a @ LazyAny # lit b) [Txt op, Grp (Suc 0), Txt cl] False
                 (Some (last (a @ g @ b))) r"
proof -
  from match_span_shape [of fl a b adv prev s gs r] assms(1)
  obtain g where g: "gs = [g]" "s = a @ g @ b @ r" by auto
  then have t: "take (length s - length r) s = a @ g @ b" by simp
  from assms(2) have ne: "a @ g @ b \<noteq> []" by simp
  have "sub_loop fl (lit a @ LazyAny # lit b) [Txt op, Grp (Suc 0), Txt cl] adv prev s
          = op @ g @ cl @
               sub_loop fl (lit a @ LazyAny # lit b) [Txt op, Grp (Suc 0), Txt cl] False
                 (Some (last (a @ g @ b))) r"
  proof -
    have "sub_loop fl (lit a @ LazyAny # lit b) [Txt op, Grp (Suc 0), Txt cl] adv prev s
          = expand [Txt op, Grp (Suc 0), Txt cl] ((a @ g @ b) # [g]) @
              (if a @ g @ b = []
               then sub_loop fl (lit a @ LazyAny # lit b) [Txt op, Grp (Suc 0), Txt cl] True prev s
               else sub_loop fl (lit a @ LazyAny # lit b) [Txt op, Grp (Suc 0), Txt cl] False
                 (Some (last (a @ g @ b))) r)"
      by (subst sub_loop.simps) (simp only: assms(1) option.case prod.case Let_def t g(1))
    with assms(2) show ?thesis by simp
  qed
  with g(2) show ?thesis by blast
qed

lemma sub_span_keeps:
  assumes a: "a \<noteq> []" and b: "b \<noteq> []"
    and ya: "set y \<inter> set a = {}" and yb: "set y \<inter> set b = {}"
  shows "sublist y (p @ s @ q) \<Longrightarrow>
         sublist y (p @ sub_loop fl (lit a @ LazyAny # lit b) [Txt op, Grp (Suc 0), Txt cl]
                          adv prev s @ q)"
proof (induction "length s" arbitrary: s p adv prev rule: less_induct)
  case less
  let ?sub = "sub_loop fl (lit a @ LazyAny # lit b) [Txt op, Grp (Suc 0), Txt cl]"
  show ?case
  proof (cases "match_here fl (lit a @ LazyAny # lit b) adv prev s")
    case None
    show ?thesis
    proof (cases s)
      case Nil
      with None have "?sub adv prev s = []" by (subst sub_loop.simps) simp
      with less.prems Nil show ?thesis by simp
    next
      case (Cons x xs)
      with None have eq: "?sub adv prev s = x # ?sub False (Some x) xs"
        by (subst sub_loop.simps) simp
      from less.prems Cons have "sublist y ((p @ [x]) @ xs @ q)" by simp
      with Cons have "sublist y ((p @ [x]) @ ?sub False (Some x) xs @ q)"
        by (intro less.hyps) simp_all
      with eq show ?thesis by simp
    qed
  next
    case (Some m)
    obtain gs r where m: "m = (gs, r)" by (cases m)
    from sub_span_step [OF Some [unfolded m] a, of op cl] obtain g where
      s: "s = a @ g @ b @ r" and
      eq: "?sub adv prev s = op @ g @ cl @ ?sub False (Some (last (a @ g @ b))) r"
      by blast
    from less.prems s have "sublist y (p @ a @ (g @ b @ r @ q))" by simp
    from sublist_across [OF this ya a] show ?thesis
    proof
      assume "sublist y p"
      then have "sublist y ([] @ p @ (?sub adv prev s @ q))" by (rule sublist_mid)
      then show ?thesis by simp
    next
      assume "sublist y (g @ b @ r @ q)"
      from sublist_across [OF this yb b] show ?thesis
      proof
        assume "sublist y g"
        then have "sublist y ((p @ op) @ g @ (cl @ ?sub False (Some (last (a @ g @ b))) r @ q))"
          by (rule sublist_mid)
        with eq show ?thesis by simp
      next
        assume "sublist y (r @ q)"
        then have "sublist y ([] @ r @ q)" by simp
        moreover from s a have "length r < length s" by (cases a) simp_all
        ultimately have "sublist y ([] @ ?sub False (Some (last (a @ g @ b))) r @ q)"
          by (intro less.hyps)
        then have "sublist y ((p @ op @ g @ cl) @ (?sub False (Some (last (a @ g @ b))) r @ q) @ [])"
          by (intro sublist_mid) simp
        with eq show ?thesis by simp
      qed
    qed
  qed
qed

section \<open>The lines of a text\<close>

text \<open>
  A string without a newline is a line of a text exactly when it stands in the text between
  two newlines, the start and the end of the text counting as newlines.
\<close>

lemma sublist_skip_head:
  "sublist (c # e) (u @ v) \<Longrightarrow> c \<notin> set u \<Longrightarrow> sublist (c # e) v"
  by (induction u) (auto simp: sublist_Cons_right)

lemma prefix_line_eq:
  "prefix (x @ [NL]) (l @ NL # t) \<Longrightarrow> NL \<notin> set x \<Longrightarrow> NL \<notin> set l \<Longrightarrow> x = l"
proof (induction x arbitrary: l)
  case Nil
  then show ?case by (cases l) auto
next
  case (Cons a x)
  then show ?case by (cases l) auto
qed

lemma line_sublist:
  "l \<in> set ls \<Longrightarrow> sublist (NL # l @ [NL]) (NL # join [NL] ls @ [NL])"
proof (induction ls)
  case Nil
  then show ?case by simp
next
  case (Cons x xs)
  show ?case
  proof (cases xs)
    case Nil
    with Cons.prems show ?thesis by simp
  next
    case (Cons z zs)
    show ?thesis
    proof (cases "l = x")
      case True
      have "NL # join [NL] (x # z # zs) @ [NL] = [] @ (NL # x @ [NL]) @ (join [NL] (z # zs) @ [NL])"
        by simp
      then show ?thesis unfolding Cons True sublist_def by blast
    next
      case False
      with Cons.prems Cons.IH have "sublist (NL # l @ [NL]) (NL # join [NL] xs @ [NL])" by simp
      then have "sublist (NL # l @ [NL]) ((NL # x) @ (NL # join [NL] xs @ [NL]) @ [])"
        by (rule sublist_mid)
      with Cons show ?thesis by simp
    qed
  qed
qed

lemma sublist_line:
  "\<forall>l \<in> set ls. NL \<notin> set l \<Longrightarrow> ls \<noteq> [] \<Longrightarrow> NL \<notin> set x \<Longrightarrow>
   sublist (NL # x @ [NL]) (NL # join [NL] ls @ [NL]) \<Longrightarrow> x \<in> set ls"
proof (induction ls)
  case Nil
  then show ?case by simp
next
  case (Cons l ls)
  from Cons.prems(1) have l: "NL \<notin> set l" by simp
  show ?case
  proof (cases ls)
    case Nil
    from Cons.prems(4) Nil
    have "prefix (NL # x @ [NL]) (NL # l @ [NL]) \<or> sublist (NL # x @ [NL]) (l @ [NL])"
      by (simp add: sublist_Cons_right)
    then show ?thesis
    proof
      assume "prefix (NL # x @ [NL]) (NL # l @ [NL])"
      then have "prefix (x @ [NL]) (l @ NL # [])" by simp
      from prefix_line_eq [OF this Cons.prems(3) l] show ?thesis by simp
    next
      assume "sublist (NL # x @ [NL]) (l @ [NL])"
      from sublist_skip_head [OF this l] have "sublist (NL # x @ [NL]) [NL]" .
      then have "length (NL # x @ [NL]) \<le> length [NL]" by (rule sublist_length_le)
      then show ?thesis by simp
    qed
  next
    case (Cons z zs)
    from Cons.prems(4) Cons
    have "prefix (NL # x @ [NL]) (NL # l @ NL # join [NL] ls @ [NL])
        \<or> sublist (NL # x @ [NL]) (l @ NL # join [NL] ls @ [NL])"
      by (simp add: sublist_Cons_right)
    then show ?thesis
    proof
      assume "prefix (NL # x @ [NL]) (NL # l @ NL # join [NL] ls @ [NL])"
      then have "prefix (x @ [NL]) (l @ NL # join [NL] ls @ [NL])" by simp
      from prefix_line_eq [OF this Cons.prems(3) l] show ?thesis by simp
    next
      assume "sublist (NL # x @ [NL]) (l @ NL # join [NL] ls @ [NL])"
      from sublist_skip_head [OF this l]
      have "sublist (NL # x @ [NL]) (NL # join [NL] ls @ [NL])" .
      with Cons.IH Cons.prems(1,3) Cons show ?thesis by simp
    qed
  qed
qed

lemma line_iff:
  assumes "NL \<notin> set x"
  shows "x \<in> set (split_fields [NL] s) \<longleftrightarrow> sublist (NL # x @ [NL]) (NL # s @ [NL])"
proof
  assume "x \<in> set (split_fields [NL] s)"
  from line_sublist [OF this] show "sublist (NL # x @ [NL]) (NL # s @ [NL])"
    by (simp add: join_split_fields)
next
  assume "sublist (NL # x @ [NL]) (NL # s @ [NL])"
  then have "sublist (NL # x @ [NL]) (NL # join [NL] (split_fields [NL] s) @ [NL])"
    by (simp add: join_split_fields)
  moreover have "\<forall>l \<in> set (split_fields [NL] s). NL \<notin> set l"
    using split_fields_free [of _ NL s] by blast
  ultimately show "x \<in> set (split_fields [NL] s)"
    using split_fields_not_Nil [of "[NL]" s] assms by (intro sublist_line)
qed

lemma sublist_join: "l \<in> set ls \<Longrightarrow> sublist l (join sep ls)"
proof (induction sep ls rule: join.induct)
  case (3 sep x y ys)
  show ?case
  proof (cases "l = x")
    case True
    then show ?thesis by simp
  next
    case False
    with 3 have "sublist l (join sep (y # ys))" by simp
    then have "sublist l ((x @ sep) @ join sep (y # ys) @ [])" by (rule sublist_mid)
    then show ?thesis by simp
  qed
qed auto

lemma line_in_text: "x \<in> set (split_fields [NL] s) \<Longrightarrow> sublist x s"
  using sublist_join [of x "split_fields [NL] s" "[NL]"] by (simp add: join_split_fields)

text \<open>A span rule whose delimiters have no newline keeps every line that has no delimiter character.\<close>

lemma span_keeps_line:
  assumes "x \<in> set (split_fields [NL] s)"
    and "a \<noteq> []" and "b \<noteq> []"
    and "set x \<inter> set a = {}" and "set x \<inter> set b = {}"
    and "NL \<notin> set a" and "NL \<notin> set b"
  shows "x \<in> set (split_fields [NL]
           (sub_loop fl (lit a @ LazyAny # lit b) [Txt op, Grp (Suc 0), Txt cl] False None s))"
proof -
  from assms(1) have x: "NL \<notin> set x" by (rule split_fields_free)
  with assms(1) have "sublist (NL # x @ [NL]) ([NL] @ s @ [NL])" by (simp add: line_iff)
  moreover from assms(4,6) have "set (NL # x @ [NL]) \<inter> set a = {}" by auto
  moreover from assms(5,7) have "set (NL # x @ [NL]) \<inter> set b = {}" by auto
  ultimately have "sublist (NL # x @ [NL])
      ([NL] @ sub_loop fl (lit a @ LazyAny # lit b) [Txt op, Grp (Suc 0), Txt cl] False None s @ [NL])"
    using assms(2,3) by (intro sub_span_keeps)
  with x show ?thesis by (simp add: line_iff)
qed

text \<open>A line rule \<open>^h(.*?)$\<close> on a whole text.\<close>

lemma re_sub_by_line:
  assumes "h \<noteq> []" and "NL \<notin> set h"
  shows "re_sub (Bol # lit h @ [LazyAny, Eol]) [Txt op, Grp 1, Txt cl] s [MULTILINE]
         = Inr (join [NL] (map (tag_line h op cl) (split_fields [NL] s)))"
proof -
  have "re_sub (Bol # lit h @ [LazyAny, Eol]) [Txt op, Grp 1, Txt cl]
          (join [NL] (split_fields [NL] s)) [MULTILINE]
        = Inr (join [NL] (map (tag_line h op cl) (split_fields [NL] s)))"
    using split_fields_not_Nil [of "[NL]" s] split_fields_free [of _ NL s]
    by (intro re_sub_lines assms) auto
  then show ?thesis by (simp only: join_split_fields)
qed

lemma line_rule_keeps_line:
  assumes "x \<in> set (split_fields [NL] s)" and "\<not> prefix h x"
  shows "x \<in> set (split_fields [NL] (join [NL] (map (tag_line h op cl) (split_fields [NL] s))))"
proof -
  from assms(1) have x: "NL \<notin> set x" by (rule split_fields_free)
  from assms have "x \<in> set (map (tag_line h op cl) (split_fields [NL] s))"
    by (force simp: tag_line_def)
  from line_sublist [OF this] x show ?thesis by (simp add: line_iff)
qed

text \<open>The five rules that follow the header rules.\<close>

lemma inline_rules_keep_line:
  assumes "x \<in> set (split_fields [NL] t)"
    and "CHR ''*'' \<notin> set x" and "CHR ''`'' \<notin> set x" and "\<not> prefix ''> '' x"
  shows "\<exists>html. inline_rules t = Inr html \<and> x \<in> set (split_fields [NL] html)"
proof -
  let ?t1 = "sub_loop [] (lit ''**'' @ LazyAny # lit ''**'')
               [Txt ''<strong>'', Grp (Suc 0), Txt ''</strong>''] False None t"
  let ?t2 = "sub_loop [] (lit ''*'' @ LazyAny # lit ''*'')
               [Txt ''<em>'', Grp (Suc 0), Txt ''</em>''] False None ?t1"
  let ?t3 = "sub_loop [DOTALL] (lit ''```'' @ LazyAny # lit ''```'')
               [Txt ''<pre><code>'', Grp (Suc 0), Txt ''</code></pre>''] False None ?t2"
  let ?t4 = "sub_loop [] (lit ''`'' @ LazyAny # lit ''`'')
               [Txt ''<code>'', Grp (Suc 0), Txt ''</code>''] False None ?t3"
  let ?t5 = "join [NL] (map (tag_line ''> '' ''<blockquote>'' ''</blockquote>'')
               (split_fields [NL] ?t4))"
  have 1: "x \<in> set (split_fields [NL] ?t1)"
    by (rule span_keeps_line [OF assms(1)]) (use assms(2) in simp_all)
  have 2: "x \<in> set (split_fields [NL] ?t2)"
    by (rule span_keeps_line [OF 1]) (use assms(2) in simp_all)
  have 3: "x \<in> set (split_fields [NL] ?t3)"
    by (rule span_keeps_line [OF 2]) (use assms(3) in simp_all)
  have 4: "x \<in> set (split_fields [NL] ?t4)"
    by (rule span_keeps_line [OF 3]) (use assms(3) in simp_all)
  have 5: "x \<in> set (split_fields [NL] ?t5)"
    by (rule line_rule_keeps_line [OF 4 assms(4)])
  have bq: "re_sub (Bol # lit ''> '' @ [LazyAny, Eol])
              [Txt ''<blockquote>'', Grp 1, Txt ''</blockquote>''] ?t4 [MULTILINE] = Inr ?t5"
    by (rule re_sub_by_line) simp_all
  have "inline_rules t = Inr ?t5"
    by (simp only: inline_rules_def re_sub_span and_then_def sum.case bq)
  with 5 show ?thesis by blast
qed

section \<open>The paragraph step\<close>

text \<open>The fields of a split: a piece without any character of the separator lies inside one field.\<close>

lemma sublist_skip:
  "sublist e (u @ v) \<Longrightarrow> set e \<inter> set u = {} \<Longrightarrow> e \<noteq> [] \<Longrightarrow> sublist e v"
  by (cases e) (auto dest: sublist_skip_head)

lemma prefix_first_field:
  "prefix e s \<Longrightarrow> set e \<inter> set sep = {} \<Longrightarrow> prefix e (hd (split_fields sep s))"
proof (induction e arbitrary: s)
  case Nil
  show ?case by simp
next
  case (Cons a e)
  then obtain s' where s: "s = a # s'" and p: "prefix e s'" by (cases s) auto
  from Cons.prems(2) have a: "a \<notin> set sep" by auto
  have nm: "\<not> (sep \<noteq> [] \<and> take (length sep) (a # s') = sep)"
  proof
    assume m: "sep \<noteq> [] \<and> take (length sep) (a # s') = sep"
    then obtain b sep' where "sep = b # sep'" by (cases sep) auto
    with m have "a = b" by simp
    with a \<open>sep = b # sep'\<close> show False by simp
  qed
  obtain f fs where f: "split_fields sep s' = f # fs"
    using split_fields_not_Nil [of sep s'] by (cases "split_fields sep s'") auto
  from Cons.IH [OF p] Cons.prems(2) f have "prefix e f" by auto
  with nm f s show ?case by (simp add: split_fields.simps)
qed

lemma sublist_in_field:
  "sublist e s \<Longrightarrow> set e \<inter> set sep = {} \<Longrightarrow> e \<noteq> []
     \<Longrightarrow> \<exists>f \<in> set (split_fields sep s). sublist e f"
proof (induction sep s rule: split_fields.induct)
  case (1 sep)
  then show ?case by simp
next
  case (2 sep c cs)
  show ?case
  proof (cases "sep \<noteq> [] \<and> take (length sep) (c # cs) = sep")
    case True
    then have "c # cs = sep @ drop (length sep) (c # cs)"
      by (metis append_take_drop_id)
    with "2.prems" have "sublist e (drop (length sep) (c # cs))"
      using sublist_skip [of e sep "drop (length sep) (c # cs)"] by simp
    with "2.IH"(1) [OF True] "2.prems" True show ?thesis
      by (auto simp: split_fields.simps)
  next
    case False
    obtain f fs where f: "split_fields sep cs = f # fs"
      using split_fields_not_Nil [of sep cs] by (cases "split_fields sep cs") auto
    from False f have sf: "split_fields sep (c # cs) = (c # f) # fs"
      by (simp add: split_fields.simps)
    from "2.prems"(1) have "prefix e (c # cs) \<or> sublist e cs"
      by (simp add: sublist_Cons_right)
    then show ?thesis
    proof
      assume pe: "prefix e (c # cs)"
      from prefix_first_field [OF pe "2.prems"(2)] sf have "prefix e (c # f)" by simp
      with sf show ?thesis by auto
    next
      assume "sublist e cs"
      with "2.IH"(2) [OF False] "2.prems" f obtain g where g: "g \<in> set (f # fs)" "sublist e g"
        by auto
      show ?thesis
      proof (cases "g = f")
        case True
        with g(2) have "sublist e (c # f)" by (simp add: sublist_Cons_right)
        with sf show ?thesis by auto
      next
        case False
        with g sf show ?thesis by auto
      qed
    qed
  qed
qed

text \<open>Stripping keeps a piece that neither starts nor ends with white space.\<close>

lemma sublist_dropWhile:
  assumes "sublist e f" and "e \<noteq> []" and "\<not> P (hd e)"
  shows "sublist e (dropWhile P f)"
proof -
  from assms(1) obtain u v where f: "f = u @ e @ v" by (auto simp: sublist_def)
  have "sublist e (dropWhile P (u @ e @ v))"
  proof (induction u)
    case Nil
    from assms(2,3) have "dropWhile P (e @ v) = e @ v" by (cases e) auto
    then show ?case by simp
  next
    case (Cons a u)
    then show ?case by (auto simp: sublist_Cons_right)
  qed
  with f show ?thesis by simp
qed

lemma sublist_strip:
  assumes "sublist e f" and "e \<noteq> []" and "\<not> isspace (hd e)" and "\<not> isspace (last e)"
  shows "sublist e (strip f)"
proof -
  have "sublist e (dropWhile isspace f)"
    using assms(1,2,3) by (rule sublist_dropWhile [where P = isspace])
  then have "sublist (rev e) (rev (dropWhile isspace f))" by simp
  moreover from assms(2,4) have "rev e \<noteq> []" "\<not> isspace (hd (rev e))"
    by (simp_all add: hd_rev)
  ultimately have "sublist (rev e) (dropWhile isspace (rev (dropWhile isspace f)))"
    by (rule sublist_dropWhile [where P = isspace])
  then have "sublist (rev (rev e)) (rev (dropWhile isspace (rev (dropWhile isspace f))))"
    by (simp only: sublist_rev)
  then show ?thesis by (simp add: strip_def)
qed

lemma strip_sublist: "sublist (strip l) l"
proof -
  have "suffix (dropWhile isspace (rev (dropWhile isspace l))) (rev (dropWhile isspace l))"
    by (rule suffix_dropWhile)
  then have "sublist (dropWhile isspace (rev (dropWhile isspace l))) (rev (dropWhile isspace l))"
    by (rule suffix_imp_sublist)
  then have "sublist (strip l) (dropWhile isspace l)"
    by (simp add: strip_def sublist_rev_left)
  moreover have "sublist (dropWhile isspace l) l"
    by (rule suffix_imp_sublist) (rule suffix_dropWhile)
  ultimately show ?thesis by (rule sublist_order.order.trans)
qed

lemma dropWhile_snoc_keeps:
  "\<not> P h \<Longrightarrow> dropWhile P (ys @ [h]) \<noteq> [] \<and> last (dropWhile P (ys @ [h])) = h"
  by (induction ys) auto

lemma strip_head:
  assumes "l \<noteq> []" and "\<not> isspace (hd l)"
  shows "strip l \<noteq> [] \<and> hd (strip l) = hd l"
proof -
  from assms obtain h t where l: "l = h # t" and h: "\<not> isspace h" by (cases l) auto
  then have d: "dropWhile isspace l = h # t" by simp
  from dropWhile_snoc_keeps [of isspace h "rev t"] h
  have "dropWhile isspace (rev t @ [h]) \<noteq> []"
    and "last (dropWhile isspace (rev t @ [h])) = h" by simp_all
  with d l show ?thesis by (simp add: strip_def hd_rev)
qed

lemma strip_last:
  assumes "strip l \<noteq> []"
  shows "\<not> isspace (last (strip l))"
proof -
  let ?d = "dropWhile isspace (rev (dropWhile isspace l))"
  from assms have ne: "?d \<noteq> []" by (simp add: strip_def)
  then have "\<not> isspace (hd ?d)" by (rule hd_dropWhile)
  with ne show ?thesis by (simp add: strip_def last_rev)
qed

lemma sublist_html_paragraphs:
  assumes "e \<noteq> []"
  shows "f \<in> set ps \<Longrightarrow> sublist e (strip f) \<Longrightarrow> \<exists>q \<in> set (html_paragraphs ps). sublist e q"
proof (induction ps)
  case Nil
  then show ?case by simp
next
  case (Cons p ps)
  show ?case
  proof (cases "f = p")
    case True
    with Cons.prems(2) assms have ne: "strip p \<noteq> []" by auto
    from True Cons.prems(2) have "sublist e (''<p>'' @ strip p @ ''</p>'')"
      by (intro sublist_mid) simp
    with True Cons.prems(2) ne show ?thesis by (auto simp: Let_def)
  next
    case False
    with Cons obtain q where "q \<in> set (html_paragraphs ps)" "sublist e q" by auto
    then show ?thesis by (auto simp: Let_def)
  qed
qed

lemma paragraphs_keep:
  assumes "sublist e t" and "NL \<notin> set e" and "e \<noteq> []"
    and "\<not> isspace (hd e)" and "\<not> isspace (last e)"
  shows "sublist e (join [NL] (html_paragraphs (split_fields [NL, NL] t)))"
proof -
  from assms(1,2,3) obtain f where f: "f \<in> set (split_fields [NL, NL] t)" "sublist e f"
    using sublist_in_field [of e t "[NL, NL]"] by auto
  from sublist_strip [OF f(2) assms(3,4,5)] have "sublist e (strip f)" .
  with sublist_html_paragraphs [OF assms(3) f(1)] obtain q
    where q: "q \<in> set (html_paragraphs (split_fields [NL, NL] t))" "sublist e q"
    by auto
  from sublist_join [OF q(1), of "[NL]"] q(2) show ?thesis
    by (metis sublist_order.order.trans)
qed

section \<open>Headings in the output of the transformer\<close>

lemma heading_line_chars:
  "set (heading_line l) \<subseteq> set l \<union> set ''<h1234>/''"
  by (auto simp: heading_line_def dest: in_set_dropD)

lemma heading_line_is_line:
  assumes "l \<in> set (split_fields [NL] md)"
  shows "heading_line l \<in> set (split_fields [NL] (join [NL] (map heading_line (split_fields [NL] md))))"
proof -
  from assms have "NL \<notin> set l" by (rule split_fields_free)
  then have x: "NL \<notin> set (heading_line l)" using heading_line_chars [of l] by auto
  from assms have "heading_line l \<in> set (map heading_line (split_fields [NL] md))" by simp
  from line_sublist [OF this] x show ?thesis by (simp add: line_iff)
qed

text \<open>
  What the transformer keeps of a line without \<open>*\<close> and without a backtick: every piece
  of the line as the header rules leave it, provided the piece has no white space at its ends.
\<close>

lemma transformer_keeps:
  assumes "l \<in> set (split_fields [NL] md)"
    and "CHR ''*'' \<notin> set l" and "CHR ''`'' \<notin> set l"
    and "\<not> prefix ''> '' (heading_line l)"
    and "sublist e (heading_line l)" and "e \<noteq> []"
    and "\<not> isspace (hd e)" and "\<not> isspace (last e)"
    and "simple_markdown_to_html md = Inr html"
  shows "sublist e html"
proof -
  let ?t = "join [NL] (map heading_line (split_fields [NL] md))"
  have 1: "heading_line l \<in> set (split_fields [NL] ?t)"
    by (rule heading_line_is_line [OF assms(1)])
  have 2: "CHR ''*'' \<notin> set (heading_line l)" "CHR ''`'' \<notin> set (heading_line l)"
    using heading_line_chars [of l] assms(2,3) by auto
  from inline_rules_keep_line [OF 1 2 assms(4)] obtain t' where
    t': "inline_rules ?t = Inr t'" "heading_line l \<in> set (split_fields [NL] t')" by blast
  from t'(2) have "sublist (heading_line l) t'" by (rule line_in_text)
  with assms(5) have e: "sublist e t'" by (rule sublist_order.order.trans)
  from t'(2) have "NL \<notin> set (heading_line l)" by (rule split_fields_free)
  with assms(5) have "NL \<notin> set e" using set_mono_sublist by fastforce
  from paragraphs_keep [OF e this assms(6,7,8)]
  have "sublist e (join [NL] (html_paragraphs (split_fields [NL, NL] t')))" .
  moreover have "simple_markdown_to_html md
      = Inr (join [NL] (html_paragraphs (split_fields [NL, NL] t')))"
    by (simp add: simple_markdown_to_html_def headers_by_line t'(1) and_then_def split_def)
  ultimately show ?thesis using assms(9) by simp
qed

lemma transformer_returns: "\<exists>html. simple_markdown_to_html md = Inr html"
  by (simp add: simple_markdown_to_html_def headers_def inline_rules_def re_sub_def
      and_then_def split_def ngroups_def lit_def)

text \<open>A text that is one line without \<open>*\<close>, backtick and heading mark.\<close>

lemma sub_loop_absent:
  "c \<notin> set s \<Longrightarrow> sub_loop fl (Chr c # p) rp adv prev s = s"
proof (induction s arbitrary: adv prev)
  case Nil
  show ?case by (subst sub_loop.simps) simp
next
  case (Cons x xs)
  then have "x \<noteq> c" "c \<notin> set xs" by auto
  with Cons.IH [of False "Some x"] show ?case
    by (subst sub_loop.simps) simp
qed

lemma sub_span_absent:
  "c \<notin> set s \<Longrightarrow> sub_loop fl (lit (c # a) @ LazyAny # lit b) rp adv prev s = s"
  using sub_loop_absent [of c s fl "lit a @ LazyAny # lit b"] by (simp add: lit_def)

lemma split_fields_absent:
  "sep \<noteq> [] \<Longrightarrow> hd sep \<notin> set s \<Longrightarrow> split_fields sep s = [s]"
proof (induction s)
  case Nil
  show ?case by (simp add: split_fields.simps)
next
  case (Cons c cs)
  then have "\<not> (take (length sep) (c # cs) = sep)" by (cases sep) auto
  with Cons show ?case by (simp add: split_fields.simps)
qed

lemma heading_line_h1: "prefix ''# '' l \<Longrightarrow> heading_line l = ''<h1>'' @ drop 2 l @ ''</h1>''"
  by (simp add: heading_line_def)

lemma heading_line_h2: "prefix ''## '' l \<Longrightarrow> heading_line l = ''<h2>'' @ drop 3 l @ ''</h2>''"
  by (auto simp: heading_line_def prefix_def)

lemma heading_line_h3: "prefix ''### '' l \<Longrightarrow> heading_line l = ''<h3>'' @ drop 4 l @ ''</h3>''"
  by (auto simp: heading_line_def prefix_def)

lemma heading_line_h4: "prefix ''#### '' l \<Longrightarrow> heading_line l = ''<h4>'' @ drop 5 l @ ''</h4>''"
  by (auto simp: heading_line_def prefix_def)

lemma heading_line_five: "prefix ''#####'' l \<Longrightarrow> heading_line l = l"
  by (auto simp: heading_line_def prefix_def)

lemma strip_id:
  assumes "x \<noteq> []" and "\<not> isspace (hd x)" and "\<not> isspace (last x)"
  shows "strip x = x"
proof -
  from assms(1,2) have "dropWhile isspace x = x" by (cases x) auto
  moreover from assms(1,3) have "dropWhile isspace (rev x) = rev x"
    by (cases "rev x") (auto simp: hd_rev [symmetric])
  ultimately show ?thesis by (simp add: strip_def)
qed

lemma line_alone:
  assumes "NL \<notin> set l" and "CHR ''*'' \<notin> set l" and "CHR ''`'' \<notin> set l"
    and "\<not> prefix ''> '' (heading_line l)"
  shows "simple_markdown_to_html l = Inr (join [NL] (html_paragraphs [heading_line l]))"
proof -
  let ?x = "heading_line l"
  have x: "NL \<notin> set ?x" "CHR ''*'' \<notin> set ?x" "CHR ''`'' \<notin> set ?x"
    using heading_line_chars [of l] assms(1,2,3) by auto
  have "split_fields [NL] l = [l]"
    using assms(1) by (simp add: split_fields_absent)
  then have h: "headers l = Inr ?x"
    by (simp add: headers_by_line)
  have lines: "split_fields [NL] ?x = [?x]"
    using x(1) by (simp add: split_fields_absent)
  have paras: "split_fields [NL, NL] ?x = [?x]"
    using x(1) by (simp add: split_fields_absent)
  have bq: "re_sub (Bol # lit ''> '' @ [LazyAny, Eol])
              [Txt ''<blockquote>'', Grp 1, Txt ''</blockquote>''] ?x [MULTILINE] = Inr ?x"
    using re_sub_by_line [of "''> ''" "''<blockquote>''" "''</blockquote>''" ?x] assms(4)
    by (simp add: lines tag_line_def)
  have s1: "sub_loop fl (lit ''**'' @ LazyAny # lit b) rp False None ?x = ?x" for fl b rp
    using sub_span_absent [OF x(2), of fl "''*''" b rp False None] by simp
  have s2: "sub_loop fl (lit ''*'' @ LazyAny # lit b) rp False None ?x = ?x" for fl b rp
    using sub_span_absent [OF x(2), of fl "[]" b rp False None] by simp
  have s3: "sub_loop fl (lit ''```'' @ LazyAny # lit b) rp False None ?x = ?x" for fl b rp
    using sub_span_absent [OF x(3), of fl "''``''" b rp False None] by simp
  have s4: "sub_loop fl (lit ''`'' @ LazyAny # lit b) rp False None ?x = ?x" for fl b rp
    using sub_span_absent [OF x(3), of fl "[]" b rp False None] by simp
  have i: "inline_rules ?x = Inr ?x"
    by (simp only: inline_rules_def re_sub_span and_then_def sum.case s1 s2 s3 s4 bq)
  show ?thesis
    by (simp add: simple_markdown_to_html_def h i and_then_def split_def paras del: html_paragraphs.simps)
qed

lemma heading_alone:
  assumes "NL \<notin> set l" and "CHR ''*'' \<notin> set l" and "CHR ''`'' \<notin> set l"
    and hl: "heading_line l = CHR ''<'' # CHR ''h'' # k # CHR ''>'' # r @ ''>''"
  shows "simple_markdown_to_html l = Inr (heading_line l)"
proof -
  have "strip (heading_line l) = heading_line l"
    by (rule strip_id) (simp_all add: hl isspace_def)
  then have "html_paragraphs [heading_line l] = [heading_line l]"
    by (simp add: Let_def startswith_def hl)
  moreover have "\<not> prefix ''> '' (heading_line l)" by (simp add: hl)
  ultimately show ?thesis using line_alone [OF assms(1,2,3)] by simp
qed

lemma five_hashes_alone:
  assumes "NL \<notin> set l" and "CHR ''*'' \<notin> set l" and "CHR ''`'' \<notin> set l"
    and "prefix ''#####'' l"
  shows "simple_markdown_to_html l = Inr (''<p>'' @ strip l @ ''</p>'')"
proof -
  from assms(4) obtain t where l: "l = CHR ''#'' # t" by (auto simp: prefix_def)
  then have "l \<noteq> []" "\<not> isspace (hd l)" by (simp_all add: isspace_def)
  from strip_head [OF this] l obtain u where st: "strip l = CHR ''#'' # u"
    by (cases "strip l") auto
  from assms(4) have hl: "heading_line l = l" by (rule heading_line_five)
  have "html_paragraphs [l] = [''<p>'' @ strip l @ ''</p>'']"
    by (simp add: Let_def startswith_def st)
  moreover have "\<not> prefix ''> '' (heading_line l)" unfolding hl by (simp add: l)
  ultimately show ?thesis using line_alone [OF assms(1,2,3)] by (simp add: hl)
qed

lemma heading_element_kept:
  assumes "l \<in> set (split_fields [NL] md)"
    and "CHR ''*'' \<notin> set l" and "CHR ''`'' \<notin> set l"
    and "heading_line l = CHR ''<'' # CHR ''h'' # k # CHR ''>'' # r @ ''>''"
    and "simple_markdown_to_html md = Inr html"
  shows "sublist (heading_line l) html"
  using assms(1,2,3) _ _ _ _ _ assms(5)
  by (rule transformer_keeps) (simp_all add: assms(4) isspace_def)

lemma five_hashes_kept:
  assumes "l \<in> set (split_fields [NL] md)"
    and "CHR ''*'' \<notin> set l" and "CHR ''`'' \<notin> set l"
    and "prefix ''#####'' l"
    and "simple_markdown_to_html md = Inr html"
  shows "sublist (strip l) html"
proof -
  from assms(4) obtain t where l: "l = CHR ''#'' # t" by (auto simp: prefix_def)
  then have "l \<noteq> []" "\<not> isspace (hd l)" by (simp_all add: isspace_def)
  from strip_head [OF this] l have ne: "strip l \<noteq> []" and hd: "hd (strip l) = CHR ''#''"
    by simp_all
  from hd have 1: "\<not> isspace (hd (strip l))" by (simp add: isspace_def)
  from ne have 2: "\<not> isspace (last (strip l))" by (rule strip_last)
  from assms(4) have hl: "heading_line l = l" by (rule heading_line_five)
  have 3: "\<not> prefix ''> '' (heading_line l)" unfolding hl by (simp add: l)
  have 4: "sublist (strip l) (heading_line l)" by (simp add: hl strip_sublist)
  from transformer_keeps [OF assms(1,2,3) 3 4 ne 1 2 assms(5)] show ?thesis .
qed

text \<open>
  C6, as the code has it. Take a line of the input that has no \<open>*\<close> and no backtick. If
  it begins with one to four \<open>#\<close> and a space, the output of the transformer contains the
  heading element of that level around the rest of the line, and a text that is this line
  alone becomes exactly that element. If it begins with five \<open>#\<close>, it is no heading: the
  output contains the line as text, without the white space that the paragraph step strips
  at its ends, and a text that is this line alone becomes a paragraph.
\<close>

theorem headings_in_output:
  assumes "l \<in> set (split_fields [NL] md_content)"
    and "CHR ''*'' \<notin> set l" and "CHR ''`'' \<notin> set l"
  shows "\<exists>html. simple_markdown_to_html md_content = Inr html
     \<and> (l = ''# '' @ rest \<longrightarrow> sublist (''<h1>'' @ rest @ ''</h1>'') html
           \<and> (md_content = l \<longrightarrow> html = ''<h1>'' @ rest @ ''</h1>''))
     \<and> (l = ''## '' @ rest \<longrightarrow> sublist (''<h2>'' @ rest @ ''</h2>'') html
           \<and> (md_content = l \<longrightarrow> html = ''<h2>'' @ rest @ ''</h2>''))
     \<and> (l = ''### '' @ rest \<longrightarrow> sublist (''<h3>'' @ rest @ ''</h3>'') html
           \<and> (md_content = l \<longrightarrow> html = ''<h3>'' @ rest @ ''</h3>''))
     \<and> (l = ''#### '' @ rest \<longrightarrow> sublist (''<h4>'' @ rest @ ''</h4>'') html
           \<and> (md_content = l \<longrightarrow> html = ''<h4>'' @ rest @ ''</h4>''))
     \<and> (l = ''#####'' @ rest \<longrightarrow> sublist (strip l) html
           \<and> (md_content = l \<longrightarrow> html = ''<p>'' @ strip l @ ''</p>''))"
proof -
  from transformer_returns obtain html where html: "simple_markdown_to_html md_content = Inr html"
    by blast
  from assms(1) have nl: "NL \<notin> set l" by (rule split_fields_free)
  note kept = heading_element_kept [OF assms _ html]
  note alone = heading_alone [OF nl assms(2,3)]
  have 1: "sublist (''<h1>'' @ rest @ ''</h1>'') html
           \<and> (md_content = l \<longrightarrow> html = ''<h1>'' @ rest @ ''</h1>'')" if l: "l = ''# '' @ rest"
  proof -
    have hl: "heading_line l = ''<h1>'' @ rest @ ''</h1>''"
      using heading_line_h1 [of l] l by simp
    then have sh: "heading_line l = CHR ''<'' # CHR ''h'' # CHR ''1'' # CHR ''>'' # (rest @ ''</h1'') @ ''>''"
      by simp
    from kept [OF sh] alone [OF sh] html hl show ?thesis by auto
  qed
  have 2: "sublist (''<h2>'' @ rest @ ''</h2>'') html
           \<and> (md_content = l \<longrightarrow> html = ''<h2>'' @ rest @ ''</h2>'')" if l: "l = ''## '' @ rest"
  proof -
    have hl: "heading_line l = ''<h2>'' @ rest @ ''</h2>''"
      using heading_line_h2 [of l] l by simp
    then have sh: "heading_line l = CHR ''<'' # CHR ''h'' # CHR ''2'' # CHR ''>'' # (rest @ ''</h2'') @ ''>''"
      by simp
    from kept [OF sh] alone [OF sh] html hl show ?thesis by auto
  qed
  have 3: "sublist (''<h3>'' @ rest @ ''</h3>'') html
           \<and> (md_content = l \<longrightarrow> html = ''<h3>'' @ rest @ ''</h3>'')" if l: "l = ''### '' @ rest"
  proof -
    have hl: "heading_line l = ''<h3>'' @ rest @ ''</h3>''"
      using heading_line_h3 [of l] l by simp
    then have sh: "heading_line l = CHR ''<'' # CHR ''h'' # CHR ''3'' # CHR ''>'' # (rest @ ''</h3'') @ ''>''"
      by simp
    from kept [OF sh] alone [OF sh] html hl show ?thesis by auto
  qed
  have 4: "sublist (''<h4>'' @ rest @ ''</h4>'') html
           \<and> (md_content = l \<longrightarrow> html = ''<h4>'' @ rest @ ''</h4>'')" if l: "l = ''#### '' @ rest"
  proof -
    have hl: "heading_line l = ''<h4>'' @ rest @ ''</h4>''"
      using heading_line_h4 [of l] l by simp
    then have sh: "heading_line l = CHR ''<'' # CHR ''h'' # CHR ''4'' # CHR ''>'' # (rest @ ''</h4'') @ ''>''"
      by simp
    from kept [OF sh] alone [OF sh] html hl show ?thesis by auto
  qed
  have 5: "sublist (strip l) html \<and> (md_content = l \<longrightarrow> html = ''<p>'' @ strip l @ ''</p>'')"
    if l: "l = ''#####'' @ rest"
  proof -
    from l have p: "prefix ''#####'' l" by simp
    from five_hashes_kept [OF assms p html] five_hashes_alone [OF nl assms(2,3) p] html
    show ?thesis by auto
  qed
  from html 1 2 3 4 5 show ?thesis by blast
qed

theorem headings_in_output_witness:
  "\<exists>html. simple_markdown_to_html (''*intro*'' @ [NL] @ ''## Title'' @ [NL, NL] @ ''##### five '')
             = Inr html
     \<and> sublist ''<h2>Title</h2>'' html"
proof -
  have 1: "''## Title'' \<in> set (split_fields [NL]
             (''*intro*'' @ [NL] @ ''## Title'' @ [NL, NL] @ ''##### five ''))"
    by code_simp
  have 2: "CHR ''*'' \<notin> set ''## Title''" "CHR ''`'' \<notin> set ''## Title''" by simp_all
  from headings_in_output [OF 1 2, of "''Title''"] show ?thesis by auto
qed

text \<open>
  C6 as it is written does not hold of the output: a line of five \<open>#\<close> alone does not come
  out as it went in, and the content of a heading with \<open>*\<close> is not the rest of the line.
\<close>

theorem five_hashes_not_unmodified:
  "simple_markdown_to_html ''##### five'' = Inr ''<p>##### five</p>''
   \<and> simple_markdown_to_html ''# *a*'' = Inr ''<h1><em>a</em></h1>''"
  by code_simp

end
